theory Spec2Isabelle
  imports Main "HOL-Library.Sublist" "HOL-Library.AList"
begin

section \<open>SnapCut expansion engine: the key listener and its collaborators\<close>

text \<open>
  The development embeds the key listener module of SnapCut (the first listener in
  \<^verbatim>\<open>src/unnamed/part_002\<close>, lines 41 to 326, the version with the pop sound and the
  clipboard snapshot) and \<^verbatim>\<open>incrementUsage\<close> of the database module.

  JavaScript strings are modelled as \<^typ>\<open>string\<close>; the model covers ASCII text, which is
  all the keycode table can produce. The module variables \<^verbatim>\<open>buffer\<close>,
  \<^verbatim>\<open>snippetMap\<close>, \<^verbatim>\<open>shortcutList\<close>, \<^verbatim>\<open>uiohook\<close>, \<^verbatim>\<open>active\<close>, \<^verbatim>\<open>expanding\<close> and
  \<^verbatim>\<open>popSoundPath\<close> are the fields of one record that every function takes and returns.
  Console output is not modelled.
\<close>

subsection \<open>Strings\<close>

text \<open>\<^verbatim>\<open>String.prototype.toLowerCase\<close> on ASCII text: A to Z (65 to 90) move by 32.\<close>

definition toLowerCase_char :: "char \<Rightarrow> char" where
  "toLowerCase_char c =
     (let n = (of_char c :: nat) in if 65 \<le> n \<and> n \<le> 90 then char_of (n + 32) else c)"

definition toLowerCase :: "string \<Rightarrow> string" where
  "toLowerCase s = map toLowerCase_char s"

text \<open>
  \<^verbatim>\<open>s.endsWith(key)\<close>: the search string is longer than \<^verbatim>\<open>s\<close>, or the last
  \<^verbatim>\<open>key.length\<close> code units of \<^verbatim>\<open>s\<close> are compared with it.
\<close>

definition endsWith :: "string \<Rightarrow> string \<Rightarrow> bool" where
  "endsWith s key = (length key \<le> length s \<and> drop (length s - length key) s = key)"

text \<open>
  \<^verbatim>\<open>s.slice(start, fin)\<close>: a negative index counts from the end, both indices are clamped
  to the string, and an empty range gives the empty string. \<^verbatim>\<open>fin\<close> omitted is
  \<open>None\<close>.
\<close>

definition slice :: "string \<Rightarrow> int \<Rightarrow> int option \<Rightarrow> string" where
  "slice s start fin =
     (let len = int (length s);
          from = (if start < 0 then max (len + start) 0 else min start len);
          e = (case fin of None \<Rightarrow> len | Some x \<Rightarrow> x);
          to = (if e < 0 then max (len + e) 0 else min e len)
      in take (nat (to - from)) (drop (nat from) s))"

subsection \<open>Snippets and plain objects\<close>

text \<open>
  The column \<^verbatim>\<open>usage_count INTEGER DEFAULT 0\<close>. The program writes it in three ways: the
  default 0, the reset to 0 of \<^verbatim>\<open>clearExpansionHistory\<close>, and \<^verbatim>\<open>usage_count + 1\<close>. SQLite
  keeps a 64-bit signed integer; when the sum does not fit, it is computed in floating
  point, the column keeps the REAL \<open>2^63\<close>, and from then on the one added is rounded
  away. So the column holds an integer or that one REAL.
\<close>

datatype sqlnum = SqlInteger int | SqlReal_2_63

definition sqlValue :: "sqlnum \<Rightarrow> int" where
  "sqlValue v = (case v of SqlInteger n \<Rightarrow> n | SqlReal_2_63 \<Rightarrow> 2 ^ 63)"

definition sqlAddOne :: "sqlnum \<Rightarrow> sqlnum" where
  "sqlAddOne v =
     (case v of
        SqlInteger n \<Rightarrow> if n + 1 \<le> 2 ^ 63 - 1 then SqlInteger (n + 1) else SqlReal_2_63
      | SqlReal_2_63 \<Rightarrow> SqlReal_2_63)"

text \<open>A row of the \<^verbatim>\<open>snippets\<close> table, as \<^verbatim>\<open>getAllSnippets\<close> hands it to the listener.\<close>

record snippet =
  id_snippet :: int
  shortcut :: string
  title :: string
  body :: string
  category :: string
  usage_count :: sqlnum

text \<open>
  A plain object used as a dictionary is the list of its own properties in creation order.
  Assigning to an existing key keeps its place, a new key goes to the end, and assigning
  to \<^verbatim>\<open>__proto__\<close> on an object created by \<^verbatim>\<open>{}\<close> sets the prototype and creates
  no own property.
\<close>

definition setProperty :: "(string \<times> 'v) list \<Rightarrow> string \<Rightarrow> 'v \<Rightarrow> (string \<times> 'v) list" where
  "setProperty obj k v = (if k = ''__proto__'' then obj else AList.update k v obj)"

text \<open>
  \<^verbatim>\<open>Object.keys\<close> lists the keys that are array indices (canonical decimal numerals
  below \<open>2^32 - 1\<close>) first, in ascending numeric order, and then the other keys in
  creation order.
\<close>

definition isDigit :: "char \<Rightarrow> bool" where
  "isDigit c = (48 \<le> (of_char c :: nat) \<and> (of_char c :: nat) \<le> 57)"

definition digitsValue :: "string \<Rightarrow> nat" where
  "digitsValue s = foldl (\<lambda>a c. 10 * a + ((of_char c :: nat) - 48)) 0 s"

definition isArrayIndex :: "string \<Rightarrow> bool" where
  "isArrayIndex s =
     (s \<noteq> [] \<and> list_all isDigit s \<and> (s = ''0'' \<or> hd s \<noteq> CHR ''0'') \<and>
      digitsValue s < 2 ^ 32 - 1)"

definition Object_keys :: "(string \<times> 'v) list \<Rightarrow> string list" where
  "Object_keys obj =
     sort_key digitsValue (filter isArrayIndex (map fst obj)) @
     filter (\<lambda>k. \<not> isArrayIndex k) (map fst obj)"

subsection \<open>Module state of the key listener\<close>

record engine =
  buffer :: string
  snippetMap :: "(string \<times> snippet) list"
  shortcutList :: "string list"
  uiohook :: bool
  listeners :: nat
  active :: bool
  expanding :: bool
  popSoundPath :: "string option"

text \<open>
  \<^verbatim>\<open>uiohook\<close> is \<open>True\<close> once the variable holds the hook object; \<^verbatim>\<open>listeners\<close> counts
  the keydown handlers registered on it, one per start of a listener that was not active.
  The values of the module at load time:
\<close>

definition initial :: engine where
  "initial = \<lparr>buffer = [], snippetMap = [], shortcutList = [], uiohook = False,
              listeners = 0, active = False, expanding = False, popSoundPath = None\<rparr>"

subsection \<open>The shortcut index\<close>

text \<open>
  The loop \<^verbatim>\<open>for (const s of snippets) snippetMap[s.shortcut.toLowerCase()] = s\<close> on a
  fresh object.
\<close>

definition buildSnippetMap :: "snippet list \<Rightarrow> (string \<times> snippet) list" where
  "buildSnippetMap snippets =
     foldl (\<lambda>m s. setProperty m (toLowerCase (shortcut s)) s) [] snippets"

text \<open>
  \<^verbatim>\<open>Object.keys(snippetMap).sort((a, b) => b.length - a.length)\<close>: the sort is stable, so
  it is an insertion sort on the negated length.
\<close>

definition sortLongestFirst :: "string list \<Rightarrow> string list" where
  "sortLongestFirst ks = sort_key (\<lambda>k. - int (length k)) ks"

definition updateSnippets :: "snippet list \<Rightarrow> engine \<Rightarrow> engine" where
  "updateSnippets snippets st =
     (let m = buildSnippetMap snippets
      in st\<lparr>snippetMap := m, shortcutList := sortLongestFirst (Object_keys m)\<rparr>)"

text \<open>
  \<^verbatim>\<open>checkBufferMatch\<close>: the first key of \<^verbatim>\<open>shortcutList\<close> that the lowercased buffer ends
  with, returned with \<^verbatim>\<open>snippetMap[key]\<close> (\<open>None\<close> where the object has no such own
  property) and the key's length; \<^verbatim>\<open>null\<close> is \<open>None\<close>.
\<close>

definition checkBufferMatch :: "engine \<Rightarrow> (snippet option \<times> nat) option" where
  "checkBufferMatch st =
     (let lower = toLowerCase (buffer st)
      in case find (\<lambda>key. endsWith lower key) (shortcutList st) of
           None \<Rightarrow> None
         | Some key \<Rightarrow> Some (map_of (snippetMap st) key, length key))"

subsection \<open>The keydown handler\<close>

text \<open>The hook's event. The handler reads \<^verbatim>\<open>e.keycode\<close> and no other field.\<close>

record keyEvent =
  keycode :: nat
  shiftKey :: bool
  altKey :: bool
  ctrlKey :: bool
  metaKey :: bool

text \<open>
  The table of printable keycodes, entry by entry as the object literal lists it; the
  backslash is character 0x5C and the apostrophe 0x27. A keycode that is not a key of the
  object reads as \<^verbatim>\<open>undefined\<close>, here \<open>None\<close>.
\<close>

definition KEYCODE_TABLE :: "(nat \<times> char) list" where
  "KEYCODE_TABLE =
     [(30, CHR ''a''), (48, CHR ''b''), (46, CHR ''c''), (32, CHR ''d''), (18, CHR ''e''),
      (33, CHR ''f''), (34, CHR ''g''), (35, CHR ''h''), (23, CHR ''i''), (36, CHR ''j''),
      (37, CHR ''k''), (38, CHR ''l''), (50, CHR ''m''), (49, CHR ''n''), (24, CHR ''o''),
      (25, CHR ''p''), (16, CHR ''q''), (19, CHR ''r''), (31, CHR ''s''), (20, CHR ''t''),
      (22, CHR ''u''), (47, CHR ''v''), (17, CHR ''w''), (45, CHR ''x''), (21, CHR ''y''),
      (44, CHR ''z''),
      (11, CHR ''0''), (2, CHR ''1''), (3, CHR ''2''), (4, CHR ''3''), (5, CHR ''4''),
      (6, CHR ''5''), (7, CHR ''6''), (8, CHR ''7''), (9, CHR ''8''), (10, CHR ''9''),
      (12, CHR ''-''), (13, CHR ''=''), (26, CHR ''[''), (27, CHR '']''), (43, CHR 0x5C),
      (39, CHR '';''), (40, CHR 0x27), (51, CHR '',''), (52, CHR ''.''), (53, CHR ''/'')]"

definition KEYCODE_MAP :: "nat \<Rightarrow> char option" where
  "KEYCODE_MAP = map_of KEYCODE_TABLE"

definition BACKSPACE :: nat where
  "BACKSPACE = 14"

text \<open>
  What the handler calls besides assigning the module variables: the match detector, and
  \<^verbatim>\<open>setImmediate\<close> with a callback that closes over \<^verbatim>\<open>deleteCount\<close> and \<^verbatim>\<open>snippet\<close>.
\<close>

datatype call = CheckBufferMatch | SetImmediate nat "snippet option"

text \<open>
  The handler registered by \<^verbatim>\<open>uiohook.on('keydown', ...)\<close>. It returns the module state
  at the moment the handler returns, and its calls in order. The callback given to
  \<^verbatim>\<open>setImmediate\<close> runs only after the handler has returned.
\<close>

definition keydown :: "keyEvent \<Rightarrow> engine \<Rightarrow> engine \<times> call list" where
  "keydown e st =
     (if expanding st then (st, [])
      else if BACKSPACE = keycode e then (st\<lparr>buffer := slice (buffer st) 0 (Some (- 1))\<rparr>, [])
      else case KEYCODE_MAP (keycode e) of
             None \<Rightarrow>
               (if keycode e \<in> set [57, 28, 15, 1] then (st\<lparr>buffer := []\<rparr>, []) else (st, []))
           | Some char \<Rightarrow>
               (let st1 = st\<lparr>buffer := buffer st @ [char]\<rparr>;
                    st2 = (if length (buffer st1) > 50
                           then st1\<lparr>buffer := slice (buffer st1) (- 30) None\<rparr> else st1)
                in case checkBufferMatch st2 of
                     None \<Rightarrow> (st2, [CheckBufferMatch])
                   | Some (snippet, matchLen) \<Rightarrow>
                       (st2\<lparr>expanding := True, buffer := []\<rparr>,
                        [CheckBufferMatch, SetImmediate matchLen snippet])))"

text \<open>A run of key events with no other callback in between.\<close>

fun keydowns :: "keyEvent list \<Rightarrow> engine \<Rightarrow> engine \<times> call list" where
  "keydowns [] st = (st, [])"
| "keydowns (e # es) st =
     (let (st1, cs1) = keydown e st; (st2, cs2) = keydowns es st1 in (st2, cs1 @ cs2))"

text \<open>
  Lines 279 to 281 of the handler on their own: the append and the truncation, as the
  handler performs them before it calls the match detector.
\<close>

definition appendChar :: "char \<Rightarrow> engine \<Rightarrow> engine" where
  "appendChar c st =
     (let st1 = st\<lparr>buffer := buffer st @ [c]\<rparr>
      in if length (buffer st1) > 50 then st1\<lparr>buffer := slice (buffer st1) (- 30) None\<rparr> else st1)"

text \<open>The characters of the table, in its order.\<close>

definition tableChars :: "char list" where
  "tableChars = map snd KEYCODE_TABLE"

subsection \<open>Starting and stopping the listener\<close>

text \<open>
  What the host decides when the listener starts: the temporary directory, and whether
  \<^verbatim>\<open>fs.writeFileSync\<close>, \<^verbatim>\<open>require('uiohook-napi')\<close> and \<^verbatim>\<open>uiohook.start()\<close> throw.
  The samples of the tone are not modelled, only whether the file was written.
\<close>

record host =
  tmpdir :: string
  writeFileThrows :: bool
  requireThrows :: bool
  startThrows :: bool

definition generatePopSound :: "host \<Rightarrow> engine \<Rightarrow> engine" where
  "generatePopSound h st =
     (if writeFileThrows h then st
      else st\<lparr>popSoundPath := Some (tmpdir h @ ''/snapcut-pop.wav'')\<rparr>)"

definition startKeyListener :: "host \<Rightarrow> snippet list \<Rightarrow> engine \<Rightarrow> engine" where
  "startKeyListener h snippets st0 =
     (let st = (if popSoundPath st0 = None then generatePopSound h st0 else st0)
      in if active st then updateSnippets snippets st
         else
           (let m = buildSnippetMap snippets;
                st1 = st\<lparr>snippetMap := m, shortcutList := sortLongestFirst (Object_keys m),
                         buffer := []\<rparr>
            in if requireThrows h then st1
               else
                 (let st2 = st1\<lparr>uiohook := True, listeners := listeners st1 + 1\<rparr>
                  in if startThrows h then st2 else st2\<lparr>active := True\<rparr>)))"

definition stopKeyListener :: "engine \<Rightarrow> engine" where
  "stopKeyListener st = (if uiohook st \<and> active st then st\<lparr>active := False\<rparr> else st)"

subsection \<open>The clipboard and the usage database\<close>

text \<open>
  The clipboard holds a text (empty when there is none) and possibly an image;
  \<^verbatim>\<open>readImage\<close> of a clipboard with no image gives an empty image. Each write replaces
  the whole content.
\<close>

datatype image = Image nat

record clipboardState =
  clipText :: string
  clipImage :: "image option"

definition writeText :: "string \<Rightarrow> clipboardState" where
  "writeText t = \<lparr>clipText = t, clipImage = None\<rparr>"

definition writeImage :: "image \<Rightarrow> clipboardState" where
  "writeImage i = \<lparr>clipText = [], clipImage = Some i\<rparr>"

definition clear :: clipboardState where
  "clear = \<lparr>clipText = [], clipImage = None\<rparr>"

text \<open>
  The two tables \<^verbatim>\<open>incrementUsage\<close> touches. A record of \<^verbatim>\<open>expansion_log\<close> has the
  four columns the statement inserts; its own key and its timestamp are filled in by the
  database and left out.
\<close>

record logRecord =
  log_snippet_id :: int
  log_shortcut :: string
  chars_expanded :: int
  chars_shortcut :: int

record database =
  snippets_table :: "snippet list"
  expansion_log :: "logRecord list"

datatype exn = TypeError | Error string

text \<open>The statement of the usage report that throws, if one does.\<close>

datatype reportStep = Require | Update | Select | Insert

text \<open>
  \<^verbatim>\<open>incrementUsage(id)\<close>: the \<^verbatim>\<open>UPDATE\<close> adds one to \<^verbatim>\<open>usage_count\<close> of the rows with
  this id, the \<^verbatim>\<open>SELECT\<close> reads the row back, and when there is one the \<^verbatim>\<open>INSERT\<close>
  appends the log record. The statements run outside a transaction, so a throw keeps
  what the earlier statements did. The two lengths of the log record are lengths of
  JavaScript strings, far below \<open>2^63\<close>.
\<close>

definition incrementUsage :: "reportStep option \<Rightarrow> int \<Rightarrow> database \<Rightarrow> database \<times> exn option" where
  "incrementUsage flt i d =
     (if flt = Some Update then (d, Some (Error ''UPDATE snippets''))
      else
        (let d1 = d\<lparr>snippets_table :=
                      map (\<lambda>r. if id_snippet r = i
                               then r\<lparr>usage_count := sqlAddOne (usage_count r)\<rparr> else r)
                        (snippets_table d)\<rparr>
         in if flt = Some Select then (d1, Some (Error ''SELECT snippets''))
            else case find (\<lambda>r. id_snippet r = i) (snippets_table d1) of
                   None \<Rightarrow> (d1, None)
                 | Some r \<Rightarrow>
                     if flt = Some Insert then (d1, Some (Error ''INSERT expansion_log''))
                     else (d1\<lparr>expansion_log := expansion_log d1 @
                                [\<lparr>log_snippet_id = i, log_shortcut = shortcut r,
                                  chars_expanded = int (length (body r)),
                                  chars_shortcut = int (length (shortcut r))\<rparr>]\<rparr>, None)))"

subsection \<open>The expansion\<close>

text \<open>
  Everything one expansion touches, and what its external calls do in this run: which of
  them throw, and how \<^verbatim>\<open>osascript\<close> ends (with the \<^verbatim>\<open>err\<close> handed to the callback of
  \<^verbatim>\<open>execFile\<close>, or never). A clipboard call that throws leaves the clipboard as it was.
  The text field of the focused application is outside the model.
\<close>

record world =
  engine :: engine
  clipboard :: clipboardState
  db :: database
  popsPlayed :: nat

datatype osascriptEnd = Exits "string option" | NeverExits

record faults =
  spawnThrows :: bool
  readImageThrows :: bool
  readTextThrows :: bool
  writeTextThrows :: bool
  osascript :: osascriptEnd
  restoreThrows :: bool
  reportThrows :: "reportStep option"

definition playPopSound :: "faults \<Rightarrow> world \<Rightarrow> world" where
  "playPopSound f w =
     (if popSoundPath (engine w) = None then w
      else if spawnThrows f then w
      else w\<lparr>popsPlayed := popsPlayed w + 1\<rparr>)"

text \<open>What the callback of \<^verbatim>\<open>execFile\<close> and the timer inside it close over.\<close>

record pendingPaste =
  deleteCount :: nat
  savedText :: "string option"
  savedImage :: "image option"

text \<open>
  \<^verbatim>\<open>runExpansion\<close> up to the call of \<^verbatim>\<open>execFile\<close>: the tone, the snapshot inside its
  \<^verbatim>\<open>try\<close>, and \<^verbatim>\<open>clipboard.writeText(expandedText)\<close>, which stands outside every
  \<^verbatim>\<open>try\<close>: when it throws, the exception leaves \<^verbatim>\<open>runExpansion\<close> and \<^verbatim>\<open>execFile\<close>
  is never called.
\<close>

definition runExpansion :: "faults \<Rightarrow> nat \<Rightarrow> string \<Rightarrow> world \<Rightarrow> world \<times> (exn + pendingPaste)" where
  "runExpansion f n expandedText w0 =
     (let w = playPopSound f w0;
          saved =
            (if readImageThrows f then (None, None)
             else case clipImage (clipboard w) of
                    Some img \<Rightarrow> (None, Some img)
                  | None \<Rightarrow>
                      if readTextThrows f then (None, None)
                      else (Some (clipText (clipboard w)), None))
      in if writeTextThrows f then (w, Inl (Error ''clipboard.writeText''))
         else (w\<lparr>clipboard := writeText expandedText\<rparr>,
               Inr \<lparr>deleteCount = n, savedText = fst saved, savedImage = snd saved\<rparr>))"

text \<open>
  The callback of \<^verbatim>\<open>execFile\<close>: it starts the 150 ms timer and, when \<^verbatim>\<open>err\<close> is set,
  releases the lock at once. The timer: the restore inside its \<^verbatim>\<open>try\<close>, then the
  release of the lock.
\<close>

definition execFileCallback :: "string option \<Rightarrow> world \<Rightarrow> world" where
  "execFileCallback err w =
     (case err of None \<Rightarrow> w | Some msg \<Rightarrow> w\<lparr>engine := (engine w)\<lparr>expanding := False\<rparr>\<rparr>)"

definition restoreTimer :: "faults \<Rightarrow> pendingPaste \<Rightarrow> world \<Rightarrow> world" where
  "restoreTimer f p w =
     (let w1 = (if restoreThrows f then w
                else w\<lparr>clipboard :=
                         (case savedImage p of
                            Some img \<Rightarrow> writeImage img
                          | None \<Rightarrow>
                              (case savedText p of Some t \<Rightarrow> writeText t | None \<Rightarrow> clear))\<rparr>)
      in w1\<lparr>engine := (engine w1)\<lparr>expanding := False\<rparr>\<rparr>)"

text \<open>
  The usage report of the \<^verbatim>\<open>setImmediate\<close> callback, with its \<^verbatim>\<open>try\<close> and empty
  \<^verbatim>\<open>catch\<close>.
\<close>

definition reportUsage :: "faults \<Rightarrow> int \<Rightarrow> world \<Rightarrow> world" where
  "reportUsage f i w =
     (if reportThrows f = Some Require then w
      else w\<lparr>db := fst (incrementUsage (reportThrows f) i (db w))\<rparr>)"

text \<open>
  The callback the handler gives to \<^verbatim>\<open>setImmediate\<close>. Reading \<^verbatim>\<open>snippet.body\<close> of
  \<^verbatim>\<open>undefined\<close> throws; an exception of \<^verbatim>\<open>runExpansion\<close> leaves the callback before the
  usage report. The result is the exception that left the callback, or the paste that
  \<^verbatim>\<open>execFile\<close> was started with.
\<close>

definition expansionTask :: "faults \<Rightarrow> nat \<Rightarrow> snippet option \<Rightarrow> world \<Rightarrow> world \<times> (exn + pendingPaste)" where
  "expansionTask f n sn w =
     (case sn of
        None \<Rightarrow> (w, Inl TypeError)
      | Some s \<Rightarrow>
          (case runExpansion f n (body s) w of
             (w1, Inl ex) \<Rightarrow> (w1, Inl ex)
           | (w1, Inr p) \<Rightarrow> (reportUsage f (id_snippet s) w1, Inr p)))"

text \<open>
  One expansion from the \<^verbatim>\<open>setImmediate\<close> callback to the timer, with no other callback
  in between: the task, then, if \<^verbatim>\<open>osascript\<close> exits, the callback of \<^verbatim>\<open>execFile\<close> and
  the timer. The second component is the exception that left the task, if any.
\<close>

definition expansion :: "faults \<Rightarrow> nat \<Rightarrow> snippet option \<Rightarrow> world \<Rightarrow> world \<times> exn option" where
  "expansion f n sn w =
     (case expansionTask f n sn w of
        (w1, Inl ex) \<Rightarrow> (w1, Some ex)
      | (w1, Inr p) \<Rightarrow>
          (case osascript f of
             NeverExits \<Rightarrow> (w1, None)
           | Exits err \<Rightarrow> (restoreTimer f p (execFileCallback err w1), None)))"

subsection \<open>What happens to the module state\<close>

text \<open>
  The hook is an event emitter. Every start of a listener that is not active registers
  the handler once more with \<^verbatim>\<open>uiohook.on\<close>, and nothing ever removes one, so a keydown
  event calls the handler once for each registration, one call after the other, all on the
  same module variables.
\<close>

definition emitKeydown :: "keyEvent \<Rightarrow> engine \<Rightarrow> engine \<times> call list" where
  "emitKeydown e st = keydowns (replicate (listeners st) e) st"

text \<open>
  The module variables change in five ways: the hook emits a key event, one of the three
  exported functions is called, or the lock is released, by the callback of \<^verbatim>\<open>execFile\<close>
  on an error or by its timer; both assign \<^verbatim>\<open>expanding = false\<close> and no other module
  variable, and the callback given to \<^verbatim>\<open>setImmediate\<close> assigns none. A history of the
  module is a list of such events, applied to the state at load time in any order.
\<close>

datatype event =
  KeyDown keyEvent
| UpdateSnippets "snippet list"
| StartKeyListener host "snippet list"
| StopKeyListener
| Release

fun step :: "event \<Rightarrow> engine \<Rightarrow> engine" where
  "step (KeyDown e) st = fst (emitKeydown e st)"
| "step (UpdateSnippets snippets) st = updateSnippets snippets st"
| "step (StartKeyListener h snippets) st = startKeyListener h snippets st"
| "step StopKeyListener st = stopKeyListener st"
| "step Release st = st\<lparr>expanding := False\<rparr>"

fun run :: "event list \<Rightarrow> engine \<Rightarrow> engine" where
  "run [] st = st"
| "run (ev # evs) st = run evs (step ev st)"

subsection \<open>Example data\<close>

definition snip :: "int \<Rightarrow> string \<Rightarrow> string \<Rightarrow> snippet" where
  "snip i sc b = \<lparr>id_snippet = i, shortcut = sc, title = sc, body = b,
                  category = ''General'', usage_count = SqlInteger 0\<rparr>"

definition press :: "nat \<Rightarrow> keyEvent" where
  "press k = \<lparr>keycode = k, shiftKey = False, altKey = False, ctrlKey = False, metaKey = False\<rparr>"

definition noFaults :: faults where
  "noFaults = \<lparr>spawnThrows = False, readImageThrows = False, readTextThrows = False,
               writeTextThrows = False, osascript = Exits None, restoreThrows = False,
               reportThrows = None\<rparr>"

definition mac :: host where
  "mac = \<lparr>tmpdir = ''/tmp'', writeFileThrows = False, requireThrows = False,
          startThrows = False\<rparr>"

text \<open>
  One snippet, the state and the calls after the listener was started with it and its
  shortcut typed, and a world around a module state: the clipboard holds the text X and the
  snippet is in the table.
\<close>

definition dev1 :: snippet where
  "dev1 = snip 1 ''dev1'' ''one''"

definition typed_dev1 :: "engine \<times> call list" where
  "typed_dev1 =
     keydowns [press 32, press 18, press 47, press 2] (startKeyListener mac [dev1] initial)"

definition desk :: "engine \<Rightarrow> world" where
  "desk st = \<lparr>engine = st, clipboard = writeText ''X'',
              db = \<lparr>snippets_table = [dev1], expansion_log = []\<rparr>, popsPlayed = 0\<rparr>"

section \<open>Properties\<close>

subsection \<open>Strings and sorting\<close>

lemma endsWith_suffix: "endsWith s k \<longleftrightarrow> suffix k s"
proof
  assume "endsWith s k"
  then have "drop (length s - length k) s = k" by (simp add: endsWith_def)
  then show "suffix k s" by (metis suffix_drop)
next
  assume "suffix k s"
  then obtain zs where "s = zs @ k" by (auto simp: suffix_def)
  then show "endsWith s k" by (simp add: endsWith_def)
qed

lemma sorted_sortLongestFirst:
  "sorted_wrt (\<lambda>a b. length b \<le> length a) (sortLongestFirst ks)"
proof -
  have "sorted (map (\<lambda>k. - int (length k)) (sortLongestFirst ks))"
    by (simp add: sortLongestFirst_def)
  then show ?thesis by (simp add: sorted_map sorted_wrt_iff_nth_less)
qed

lemma find_first_longest:
  "sorted_wrt (\<lambda>a b. length b \<le> length a) xs \<Longrightarrow> find P xs = Some x \<Longrightarrow> y \<in> set xs \<Longrightarrow> P y
   \<Longrightarrow> length y \<le> length x"
  by (induction xs) (auto split: if_splits)

lemma set_Object_keys: "set (Object_keys obj) = fst ` set obj"
  by (auto simp: Object_keys_def)

subsection \<open>The index is made of the snippets\<close>

lemma setProperty_inv:
  "\<forall>(k, v) \<in> set m. P k v \<Longrightarrow> P k v \<Longrightarrow> \<forall>(k, v) \<in> set (setProperty m k v). P k v"
  by (induction m) (auto simp: setProperty_def)

lemma buildSnippetMap_entries_aux:
  "\<forall>(k, v) \<in> set m. v \<in> set all \<and> k = toLowerCase (shortcut v) \<Longrightarrow> set snippets \<subseteq> set all \<Longrightarrow>
   \<forall>(k, v) \<in> set (foldl (\<lambda>m s. setProperty m (toLowerCase (shortcut s)) s) m snippets).
      v \<in> set all \<and> k = toLowerCase (shortcut v)"
proof (induction snippets arbitrary: m)
  case Nil
  then show ?case by simp
next
  case (Cons s ss)
  have "\<forall>(k, v) \<in> set (setProperty m (toLowerCase (shortcut s)) s).
          v \<in> set all \<and> k = toLowerCase (shortcut v)"
    using Cons.prems by (intro setProperty_inv) auto
  then show ?case using Cons by simp
qed

lemma buildSnippetMap_entries:
  "(k, v) \<in> set (buildSnippetMap snippets) \<Longrightarrow> v \<in> set snippets \<and> k = toLowerCase (shortcut v)"
  using buildSnippetMap_entries_aux [of "[]" snippets snippets]
  by (auto simp: buildSnippetMap_def)

lemma map_of_buildSnippetMap:
  assumes "k \<in> fst ` set (buildSnippetMap snippets)"
  shows "\<exists>s \<in> set snippets. map_of (buildSnippetMap snippets) k = Some s \<and>
           toLowerCase (shortcut s) = k"
proof -
  from assms obtain s where "map_of (buildSnippetMap snippets) k = Some s"
    by (metis weak_map_of_SomeI map_of_eq_None_iff not_None_eq)
  moreover from this have "(k, s) \<in> set (buildSnippetMap snippets)" by (rule map_of_SomeD)
  ultimately show ?thesis using buildSnippetMap_entries by blast
qed

subsection \<open>Longest match\<close>

text \<open>
  C1. Whatever the buffer and whatever snippets the index was built from: when
  \<^verbatim>\<open>checkBufferMatch\<close> returns a match, the shortcut list splits at the matched key, no key
  before it is a suffix of the lowercased buffer and the key is one; the returned length
  is the key's and the returned snippet is one of the snippets, with this key as its
  lowercased shortcut; every registered key that is a suffix of the lowercased buffer is
  at most as long as the matched one, and equal to it when as long; and the list is in
  descending order of length. Every state the listener reaches has its index built this
  way (\<open>reachable_index\<close>).
\<close>

theorem checkBufferMatch_longest:
  assumes "checkBufferMatch (updateSnippets snippets st) = Some (sn, n)"
  shows "\<exists>k pre post s.
           shortcutList (updateSnippets snippets st) = pre @ k # post \<and>
           (\<forall>k' \<in> set pre. \<not> suffix k' (toLowerCase (buffer st))) \<and>
           suffix k (toLowerCase (buffer st)) \<and>
           n = length k \<and> sn = Some s \<and> s \<in> set snippets \<and> toLowerCase (shortcut s) = k \<and>
           (\<forall>k' \<in> set (shortcutList (updateSnippets snippets st)).
              suffix k' (toLowerCase (buffer st)) \<longrightarrow>
              length k' \<le> length k \<and> (length k' = length k \<longrightarrow> k' = k)) \<and>
           sorted_wrt (\<lambda>a b. length b \<le> length a) (shortcutList (updateSnippets snippets st))"
proof -
  let ?st = "updateSnippets snippets st"
  let ?lower = "toLowerCase (buffer st)"
  let ?P = "\<lambda>k. suffix k ?lower"
  have buf: "buffer ?st = buffer st" by (simp add: updateSnippets_def Let_def)
  have sl: "shortcutList ?st = sortLongestFirst (Object_keys (buildSnippetMap snippets))"
    by (simp add: updateSnippets_def Let_def)
  have sm: "snippetMap ?st = buildSnippetMap snippets"
    by (simp add: updateSnippets_def Let_def)
  have srt: "sorted_wrt (\<lambda>a b. length b \<le> length a) (shortcutList ?st)"
    unfolding sl by (rule sorted_sortLongestFirst)
  from assms obtain k where f: "find ?P (shortcutList ?st) = Some k"
    and n: "n = length k" and sn: "sn = map_of (snippetMap ?st) k"
    by (auto simp: checkBufferMatch_def buf endsWith_suffix Let_def split: option.splits)
  from f obtain i where i: "i < length (shortcutList ?st)" "?P (shortcutList ?st ! i)"
    "k = shortcutList ?st ! i" "\<forall>j<i. \<not> ?P (shortcutList ?st ! j)"
    by (auto simp: find_Some_iff)
  define pre where "pre = take i (shortcutList ?st)"
  define post where "post = drop (Suc i) (shortcutList ?st)"
  have split: "shortcutList ?st = pre @ k # post"
    using i(1,3) by (simp add: pre_def post_def id_take_nth_drop)
  have pre: "\<forall>k' \<in> set pre. \<not> ?P k'"
    using i(1,4) by (auto simp: pre_def in_set_conv_nth)
  have "k \<in> set (shortcutList ?st)" using split by simp
  then have "k \<in> fst ` set (buildSnippetMap snippets)"
    by (simp add: sl sortLongestFirst_def set_Object_keys)
  then obtain s where s: "s \<in> set snippets" "map_of (buildSnippetMap snippets) k = Some s"
    "toLowerCase (shortcut s) = k"
    using map_of_buildSnippetMap by blast
  have longest: "\<forall>k' \<in> set (shortcutList ?st). ?P k' \<longrightarrow>
      length k' \<le> length k \<and> (length k' = length k \<longrightarrow> k' = k)"
  proof (intro ballI impI conjI)
    fix k' assume k': "k' \<in> set (shortcutList ?st)" "?P k'"
    show "length k' \<le> length k" using find_first_longest [OF srt f k'] .
    assume "length k' = length k"
    then show "k' = k" using k'(2) i(2,3)
      by (metis suffix_order.antisym suffix_length_suffix order_refl)
  qed
  show ?thesis
    using split pre i(2,3) n sn s longest srt by (auto simp: sm)
qed

text \<open>
  The shortcuts \<^verbatim>\<open>dev1\<close> and \<^verbatim>\<open>dev12\<close>: a buffer ending in \<^verbatim>\<open>dev12\<close> matches
  \<^verbatim>\<open>dev12\<close>, and a buffer ending in \<^verbatim>\<open>xdev1\<close> matches \<^verbatim>\<open>dev1\<close>.
\<close>

theorem checkBufferMatch_longest_witness:
  "checkBufferMatch (updateSnippets [snip 1 ''dev1'' ''one'', snip 2 ''dev12'' ''twelve'']
      (initial\<lparr>buffer := ''mydev12''\<rparr>)) = Some (Some (snip 2 ''dev12'' ''twelve''), 5) \<and>
   checkBufferMatch (updateSnippets [snip 1 ''dev1'' ''one'', snip 2 ''dev12'' ''twelve'']
      (initial\<lparr>buffer := ''xdev1''\<rparr>)) = Some (Some (snip 1 ''dev1'' ''one''), 4) \<and>
   (\<exists>k pre post.
      shortcutList (updateSnippets [snip 1 ''dev1'' ''one'', snip 2 ''dev12'' ''twelve'']
        (initial\<lparr>buffer := ''mydev12''\<rparr>)) = pre @ k # post \<and>
      (\<forall>k' \<in> set pre. \<not> suffix k' (toLowerCase (buffer (initial\<lparr>buffer := ''mydev12''\<rparr>)))) \<and>
      suffix k (toLowerCase (buffer (initial\<lparr>buffer := ''mydev12''\<rparr>))) \<and> 5 = length k) \<and>
   (\<exists>k pre post.
      shortcutList (updateSnippets [snip 1 ''dev1'' ''one'', snip 2 ''dev12'' ''twelve'']
        (initial\<lparr>buffer := ''xdev1''\<rparr>)) = pre @ k # post \<and>
      (\<forall>k' \<in> set pre. \<not> suffix k' (toLowerCase (buffer (initial\<lparr>buffer := ''xdev1''\<rparr>)))) \<and>
      suffix k (toLowerCase (buffer (initial\<lparr>buffer := ''xdev1''\<rparr>))) \<and> 4 = length k)"
proof -
  have h1: "checkBufferMatch (updateSnippets [snip 1 ''dev1'' ''one'', snip 2 ''dev12'' ''twelve'']
      (initial\<lparr>buffer := ''mydev12''\<rparr>)) = Some (Some (snip 2 ''dev12'' ''twelve''), 5)"
    by (simp add: checkBufferMatch_def updateSnippets_def buildSnippetMap_def setProperty_def
        Object_keys_def isArrayIndex_def isDigit_def sortLongestFirst_def toLowerCase_def
        toLowerCase_char_def endsWith_def snip_def initial_def Let_def)
  have h2: "checkBufferMatch (updateSnippets [snip 1 ''dev1'' ''one'', snip 2 ''dev12'' ''twelve'']
      (initial\<lparr>buffer := ''xdev1''\<rparr>)) = Some (Some (snip 1 ''dev1'' ''one''), 4)"
    by (simp add: checkBufferMatch_def updateSnippets_def buildSnippetMap_def setProperty_def
        Object_keys_def isArrayIndex_def isDigit_def sortLongestFirst_def toLowerCase_def
        toLowerCase_char_def endsWith_def snip_def initial_def Let_def)
  from checkBufferMatch_longest [OF h1] checkBufferMatch_longest [OF h2] show ?thesis
    using h1 h2 by blast
qed

subsection \<open>The keydown handler, case by case\<close>

lemma slice_drop_last: "slice s 0 (Some (- 1)) = butlast s"
  by (cases s rule: rev_cases) (auto simp: slice_def Let_def butlast_conv_take)

lemma slice_last_30: "slice s (- 30) None = drop (length s - 30) s"
  by (auto simp: slice_def Let_def max_def nat_diff_distrib)

lemma keydown_locked: "expanding st \<Longrightarrow> keydown e st = (st, [])"
  by (simp add: keydown_def)

lemma keydowns_locked: "expanding st \<Longrightarrow> keydowns es st = (st, [])"
  by (induction es) (simp_all add: keydown_locked)

lemma keydown_backspace:
  "\<not> expanding st \<Longrightarrow> keycode e = BACKSPACE \<Longrightarrow>
   keydown e st = (st\<lparr>buffer := butlast (buffer st)\<rparr>, [])"
  by (simp add: keydown_def slice_drop_last)

lemma keydown_unmapped:
  "\<not> expanding st \<Longrightarrow> keycode e \<noteq> BACKSPACE \<Longrightarrow> KEYCODE_MAP (keycode e) = None \<Longrightarrow>
   keydown e st = (if keycode e \<in> {57, 28, 15, 1} then (st\<lparr>buffer := []\<rparr>, []) else (st, []))"
  by (simp add: keydown_def)

lemma keydown_mapped:
  "\<not> expanding st \<Longrightarrow> keycode e \<noteq> BACKSPACE \<Longrightarrow> KEYCODE_MAP (keycode e) = Some c \<Longrightarrow>
   keydown e st =
     (case checkBufferMatch (appendChar c st) of
        None \<Rightarrow> (appendChar c st, [CheckBufferMatch])
      | Some (sn, n) \<Rightarrow>
          ((appendChar c st)\<lparr>expanding := True, buffer := []\<rparr>,
           [CheckBufferMatch, SetImmediate n sn]))"
  unfolding keydown_def appendChar_def Let_def by simp

lemma buffer_appendChar:
  "buffer (appendChar c st) =
     (if length (buffer st) \<ge> 50 then drop (length (buffer st) - 29) (buffer st @ [c])
      else buffer st @ [c])"
  by (simp add: appendChar_def Let_def slice_last_30)

lemma length_appendChar: "length (buffer st) \<le> 50 \<Longrightarrow> length (buffer (appendChar c st)) \<le> 50"
  by (simp add: buffer_appendChar)

lemma keydown_mapped_cases:
  assumes "\<not> expanding st" "keycode e \<noteq> BACKSPACE" "KEYCODE_MAP (keycode e) = Some c"
  shows "keydown e st = (appendChar c st, [CheckBufferMatch]) \<and>
           checkBufferMatch (appendChar c st) = None \<or>
         (\<exists>sn n. keydown e st = ((appendChar c st)\<lparr>expanding := True, buffer := []\<rparr>,
                                  [CheckBufferMatch, SetImmediate n sn]) \<and>
                 checkBufferMatch (appendChar c st) = Some (sn, n))"
  unfolding keydown_mapped [OF assms]
  by (cases "checkBufferMatch (appendChar c st)") auto

lemma keydown_length:
  assumes "length (buffer st) \<le> 50" shows "length (buffer (fst (keydown e st))) \<le> 50"
proof (cases "expanding st")
  case True then show ?thesis using assms by (simp add: keydown_locked)
next
  case unlocked: False
  show ?thesis
  proof (cases "keycode e = BACKSPACE")
    case True then show ?thesis using assms unlocked by (simp add: keydown_backspace)
  next
    case nb: False
    show ?thesis
    proof (cases "KEYCODE_MAP (keycode e)")
      case None then show ?thesis using assms unlocked nb by (simp add: keydown_unmapped)
    next
      case (Some c)
      show ?thesis using keydown_mapped_cases [OF unlocked nb Some] length_appendChar [OF assms, of c]
        by auto
    qed
  qed
qed

lemma keydowns_Cons_fst: "fst (keydowns (e # es) st) = fst (keydowns es (fst (keydown e st)))"
  by (simp add: split_beta Let_def)

lemma keydowns_length:
  "length (buffer st) \<le> 50 \<Longrightarrow> length (buffer (fst (keydowns es st))) \<le> 50"
proof (induction es arbitrary: st)
  case Nil then show ?case by simp
next
  case (Cons e es)
  show ?case unfolding keydowns_Cons_fst
    by (rule Cons.IH) (rule keydown_length [OF Cons.prems])
qed

lemma KEYCODE_MAP_tableChars: "KEYCODE_MAP k = Some c \<Longrightarrow> c \<in> set tableChars"
  unfolding KEYCODE_MAP_def tableChars_def by (drule map_of_SomeD) force

lemma tableChars_lower: "c \<in> set tableChars \<Longrightarrow> toLowerCase_char c = c"
  by (auto simp: tableChars_def KEYCODE_TABLE_def toLowerCase_char_def)

lemma tableChars_count: "length tableChars = 46 \<and> distinct tableChars"
  by (simp add: tableChars_def KEYCODE_TABLE_def)

lemma tableChars_set:
  "set tableChars = set (''abcdefghijklmnopqrstuvwxyz0123456789-=[]'' @ [CHR 0x5C] @ '';'' @ [CHR 0x27] @ '',./'')"
  by (simp add: tableChars_def KEYCODE_TABLE_def)

lemma keydown_chars: "set (buffer (fst (keydown e st))) \<subseteq> set (buffer st) \<union> set tableChars"
proof (cases "expanding st")
  case True then show ?thesis by (simp add: keydown_locked)
next
  case unlocked: False
  show ?thesis
  proof (cases "keycode e = BACKSPACE")
    case True then show ?thesis using unlocked
      by (auto simp: keydown_backspace dest: in_set_butlastD)
  next
    case nb: False
    show ?thesis
    proof (cases "KEYCODE_MAP (keycode e)")
      case None then show ?thesis using unlocked nb by (simp add: keydown_unmapped)
    next
      case (Some c)
      have c: "c \<in> set tableChars" using Some by (rule KEYCODE_MAP_tableChars)
      show ?thesis using keydown_mapped_cases [OF unlocked nb Some] c
        by (auto simp: buffer_appendChar split: if_splits dest: in_set_dropD)
    qed
  qed
qed

lemma keydowns_chars:
  "set (buffer st) \<subseteq> set tableChars \<Longrightarrow> set (buffer (fst (keydowns es st))) \<subseteq> set tableChars"
proof (induction es arbitrary: st)
  case Nil then show ?case by simp
next
  case (Cons e es)
  have "set (buffer (fst (keydown e st))) \<subseteq> set tableChars"
    using keydown_chars [of e st] Cons.prems by blast
  then show ?case unfolding keydowns_Cons_fst by (rule Cons.IH)
qed

lemma keydown_keycode_only: "keycode e' = keycode e \<Longrightarrow> keydown e' st = keydown e st"
  by (simp add: keydown_def)


text \<open>
  C3. While \<^verbatim>\<open>expanding\<close> is true a key event, and any run of key events, leaves the
  whole module state as it was and calls nothing: no buffer change, no match detection,
  no expansion scheduled. And whenever the handler schedules an expansion with
  \<^verbatim>\<open>setImmediate\<close>, the lock was free before, and the state the handler returns, which
  is the state the scheduled callback will find, has the lock set and the buffer empty,
  so every key event that arrives before the callback is ignored.
\<close>

theorem keydown_ignored_while_expanding:
  "(expanding st \<longrightarrow> keydown e st = (st, []) \<and> keydowns es st = (st, [])) \<and>
   (SetImmediate n sn \<in> set (snd (keydown e st)) \<longrightarrow>
      \<not> expanding st \<and> expanding (fst (keydown e st)) \<and> buffer (fst (keydown e st)) = [] \<and>
      keydowns es (fst (keydown e st)) = (fst (keydown e st), []))"
proof (intro conjI impI)
  assume "expanding st"
  then show "keydown e st = (st, [])" "keydowns es st = (st, [])"
    by (simp_all add: keydown_locked keydowns_locked)
next
  assume s: "SetImmediate n sn \<in> set (snd (keydown e st))"
  then show unlocked: "\<not> expanding st" by (auto simp: keydown_locked)
  have nb: "keycode e \<noteq> BACKSPACE" using s unlocked by (auto simp: keydown_backspace)
  obtain c where c: "KEYCODE_MAP (keycode e) = Some c"
    using s unlocked nb by (cases "KEYCODE_MAP (keycode e)") (auto simp: keydown_unmapped split: if_splits)
  show l: "expanding (fst (keydown e st))"
    using s keydown_mapped_cases [OF unlocked nb c] by auto
  show "buffer (fst (keydown e st)) = []"
    using s keydown_mapped_cases [OF unlocked nb c] by auto
  show "keydowns es (fst (keydown e st)) = (fst (keydown e st), [])"
    using l by (rule keydowns_locked)
qed

text \<open>A locked listener ignores \<^verbatim>\<open>d\<close>; a free one with the shortcut \<^verbatim>\<open>d\<close> fires on it.\<close>

theorem keydown_ignored_while_expanding_witness:
  "expanding (initial\<lparr>expanding := True\<rparr>) \<and>
   keydown (press 32) (initial\<lparr>expanding := True\<rparr>) = (initial\<lparr>expanding := True\<rparr>, []) \<and>
   SetImmediate 1 (Some (snip 7 ''d'' ''done''))
     \<in> set (snd (keydown (press 32) (updateSnippets [snip 7 ''d'' ''done''] initial))) \<and>
   expanding (fst (keydown (press 32) (updateSnippets [snip 7 ''d'' ''done''] initial))) \<and>
   buffer (fst (keydown (press 32) (updateSnippets [snip 7 ''d'' ''done''] initial))) = []"
proof -
  have h1: "expanding (initial\<lparr>expanding := True\<rparr>)" by simp
  have h2: "SetImmediate 1 (Some (snip 7 ''d'' ''done''))
     \<in> set (snd (keydown (press 32) (updateSnippets [snip 7 ''d'' ''done''] initial)))"
    by (simp add: keydown_def press_def BACKSPACE_def KEYCODE_MAP_def KEYCODE_TABLE_def
        checkBufferMatch_def updateSnippets_def buildSnippetMap_def setProperty_def
        Object_keys_def isArrayIndex_def isDigit_def sortLongestFirst_def toLowerCase_def
        toLowerCase_char_def endsWith_def snip_def initial_def Let_def)
  show ?thesis
    using keydown_ignored_while_expanding [of "initial\<lparr>expanding := True\<rparr>" "press 32" "[]" 0 None]
      keydown_ignored_while_expanding [of "updateSnippets [snip 7 ''d'' ''done''] initial" "press 32" "[]"
         1 "Some (snip 7 ''d'' ''done'')"] h1 h2
    by blast
qed

subsection \<open>A held lock goes with an empty buffer\<close>

lemma lock_buffer_keydown:
  assumes "expanding st \<longrightarrow> buffer st = []"
  shows "expanding (fst (keydown e st)) \<longrightarrow> buffer (fst (keydown e st)) = []"
proof (cases "expanding st")
  case True
  then show ?thesis using assms by (simp add: keydown_locked)
next
  case unlocked: False
  show ?thesis
  proof (cases "keycode e = BACKSPACE")
    case True
    then show ?thesis using unlocked by (simp add: keydown_backspace)
  next
    case nb: False
    show ?thesis
    proof (cases "KEYCODE_MAP (keycode e)")
      case None
      then show ?thesis using unlocked nb by (simp add: keydown_unmapped)
    next
      case (Some c)
      have "expanding (appendChar c st) = expanding st"
        by (simp add: appendChar_def Let_def)
      then show ?thesis using keydown_mapped_cases [OF unlocked nb Some] unlocked by auto
    qed
  qed
qed

lemma lock_buffer_keydowns:
  "expanding st \<longrightarrow> buffer st = [] \<Longrightarrow>
   expanding (fst (keydowns es st)) \<longrightarrow> buffer (fst (keydowns es st)) = []"
proof (induction es arbitrary: st)
  case Nil
  then show ?case by simp
next
  case (Cons e es)
  show ?case unfolding keydowns_Cons_fst
    by (rule Cons.IH) (rule lock_buffer_keydown [OF Cons.prems])
qed

lemma lock_buffer_other:
  assumes "expanding st \<longrightarrow> buffer st = []"
  shows "expanding (updateSnippets snippets st) \<longrightarrow> buffer (updateSnippets snippets st) = []"
    and "expanding (startKeyListener h snippets st) \<longrightarrow> buffer (startKeyListener h snippets st) = []"
    and "expanding (stopKeyListener st) \<longrightarrow> buffer (stopKeyListener st) = []"
    and "expanding initial \<longrightarrow> buffer initial = []"
  using assms
  by (simp_all add: updateSnippets_def startKeyListener_def stopKeyListener_def
      generatePopSound_def initial_def Let_def)

subsection \<open>Every state the listener reaches\<close>

lemma engine_callbacks:
  "engine (fst (expansionTask f n sn w)) = engine w"
  "engine (execFileCallback err w) = (case err of None \<Rightarrow> engine w | Some m \<Rightarrow> step Release (engine w))"
  "engine (restoreTimer f p w) = step Release (engine w)"
  by (auto simp: expansionTask_def runExpansion_def playPopSound_def reportUsage_def
      execFileCallback_def restoreTimer_def Let_def split: option.splits)

lemma step_lock:
  assumes "expanding st \<longrightarrow> buffer st = []"
  shows "expanding (step ev st) \<longrightarrow> buffer (step ev st) = []"
proof (cases ev)
  case (KeyDown e)
  then show ?thesis using lock_buffer_keydowns [OF assms] by (simp add: emitKeydown_def)
next
  case (UpdateSnippets sn)
  then show ?thesis using lock_buffer_other(1) [OF assms] by simp
next
  case (StartKeyListener h sn)
  then show ?thesis using lock_buffer_other(2) [OF assms] by simp
next
  case StopKeyListener
  then show ?thesis using lock_buffer_other(3) [OF assms] by simp
next
  case Release
  then show ?thesis by simp
qed

lemma step_length:
  assumes "length (buffer st) \<le> 50"
  shows "length (buffer (step ev st)) \<le> 50"
proof (cases ev)
  case (KeyDown e)
  then show ?thesis using keydowns_length [OF assms] by (simp add: emitKeydown_def)
qed (use assms in \<open>auto simp: updateSnippets_def startKeyListener_def stopKeyListener_def
      generatePopSound_def Let_def\<close>)

lemma step_chars:
  assumes "set (buffer st) \<subseteq> set tableChars"
  shows "set (buffer (step ev st)) \<subseteq> set tableChars"
proof (cases ev)
  case (KeyDown e)
  then show ?thesis using keydowns_chars [OF assms] by (simp add: emitKeydown_def)
qed (use assms in \<open>auto simp: updateSnippets_def startKeyListener_def stopKeyListener_def
      generatePopSound_def Let_def\<close>)

lemma run_invariant:
  assumes "(expanding st \<longrightarrow> buffer st = []) \<and> length (buffer st) \<le> 50 \<and>
           set (buffer st) \<subseteq> set tableChars"
  shows "(expanding (run evs st) \<longrightarrow> buffer (run evs st) = []) \<and>
         length (buffer (run evs st)) \<le> 50 \<and> set (buffer (run evs st)) \<subseteq> set tableChars"
  using assms
proof (induction evs arbitrary: st)
  case Nil
  then show ?case by simp
next
  case (Cons ev evs)
  have "(expanding (step ev st) \<longrightarrow> buffer (step ev st) = []) \<and>
        length (buffer (step ev st)) \<le> 50 \<and> set (buffer (step ev st)) \<subseteq> set tableChars"
    using Cons.prems step_lock [of st ev] step_length [of st ev] step_chars [of st ev] by blast
  then show ?case using Cons.IH by simp
qed

lemma reachable_invariant:
  "(expanding (run evs initial) \<longrightarrow> buffer (run evs initial) = []) \<and>
   length (buffer (run evs initial)) \<le> 50 \<and> set (buffer (run evs initial)) \<subseteq> set tableChars"
  by (rule run_invariant) (simp add: initial_def)

lemma emitKeydown_one: "listeners st = Suc 0 \<Longrightarrow> emitKeydown e st = keydown e st"
  by (simp add: emitKeydown_def split_beta)

lemma start_has_sound:
  "\<not> writeFileThrows h \<Longrightarrow> popSoundPath (startKeyListener h snippets st) \<noteq> None"
  by (auto simp: startKeyListener_def generatePopSound_def updateSnippets_def Let_def)

lemma appendChar_frame:
  "active (appendChar c st) = active st \<and> popSoundPath (appendChar c st) = popSoundPath st \<and>
   snippetMap (appendChar c st) = snippetMap st \<and> shortcutList (appendChar c st) = shortcutList st \<and>
   listeners (appendChar c st) = listeners st"
  by (simp add: appendChar_def Let_def)

lemma keydown_frame:
  "active (fst (keydown e st)) = active st \<and>
   popSoundPath (fst (keydown e st)) = popSoundPath st \<and>
   snippetMap (fst (keydown e st)) = snippetMap st \<and>
   shortcutList (fst (keydown e st)) = shortcutList st \<and>
   listeners (fst (keydown e st)) = listeners st"
proof (cases "expanding st")
  case True
  then show ?thesis by (simp add: keydown_locked)
next
  case unlocked: False
  show ?thesis
  proof (cases "keycode e = BACKSPACE")
    case True
    then show ?thesis using unlocked by (simp add: keydown_backspace)
  next
    case nb: False
    show ?thesis
    proof (cases "KEYCODE_MAP (keycode e)")
      case None
      then show ?thesis using unlocked nb by (simp add: keydown_unmapped)
    next
      case (Some c)
      then show ?thesis
        using keydown_mapped_cases [OF unlocked nb Some] appendChar_frame [of c st] by auto
    qed
  qed
qed

lemma keydowns_frame:
  "active (fst (keydowns es st)) = active st \<and>
   popSoundPath (fst (keydowns es st)) = popSoundPath st \<and>
   snippetMap (fst (keydowns es st)) = snippetMap st \<and>
   shortcutList (fst (keydowns es st)) = shortcutList st \<and>
   listeners (fst (keydowns es st)) = listeners st"
proof (induction es arbitrary: st)
  case Nil
  then show ?case by simp
next
  case (Cons e es)
  show ?case unfolding keydowns_Cons_fst
    using Cons.IH [of "fst (keydown e st)"] keydown_frame [of e st] by simp
qed

lemma step_active_sound:
  assumes "active st \<longrightarrow> popSoundPath st \<noteq> None"
    and "\<forall>h sn. ev = StartKeyListener h sn \<longrightarrow> \<not> writeFileThrows h"
  shows "active (step ev st) \<longrightarrow> popSoundPath (step ev st) \<noteq> None"
proof (cases ev)
  case (KeyDown e)
  then show ?thesis
    using assms(1) keydowns_frame [of "replicate (listeners st) e" st]
    by (simp add: emitKeydown_def)
next
  case (StartKeyListener h sn)
  then show ?thesis using assms(2) start_has_sound by simp
qed (use assms in \<open>auto simp: updateSnippets_def stopKeyListener_def Let_def\<close>)

lemma active_has_sound:
  assumes "\<forall>h sn. StartKeyListener h sn \<in> set evs \<longrightarrow> \<not> writeFileThrows h"
    and "active st \<longrightarrow> popSoundPath st \<noteq> None"
  shows "active (run evs st) \<longrightarrow> popSoundPath (run evs st) \<noteq> None"
  using assms
proof (induction evs arbitrary: st)
  case Nil
  then show ?case by simp
next
  case (Cons ev evs)
  have "active (step ev st) \<longrightarrow> popSoundPath (step ev st) \<noteq> None"
    using Cons.prems by (intro step_active_sound) auto
  moreover have "\<forall>h sn. StartKeyListener h sn \<in> set evs \<longrightarrow> \<not> writeFileThrows h"
    using Cons.prems(1) by auto
  ultimately have "active (run evs (step ev st)) \<longrightarrow> popSoundPath (run evs (step ev st)) \<noteq> None"
    by (intro Cons.IH)
  then show ?case by simp
qed

text \<open>The index of every state the listener reaches was built from some list of snippets.\<close>

lemma updateSnippets_fixed:
  "st = updateSnippets snippets st \<longleftrightarrow>
   snippetMap st = buildSnippetMap snippets \<and>
   shortcutList st = sortLongestFirst (Object_keys (buildSnippetMap snippets))"
  by (cases st) (auto simp: updateSnippets_def Let_def)

lemma step_index:
  assumes "\<exists>snippets. st = updateSnippets snippets st"
  shows "\<exists>snippets. step ev st = updateSnippets snippets (step ev st)"
proof -
  from assms obtain sn where sn: "snippetMap st = buildSnippetMap sn"
    "shortcutList st = sortLongestFirst (Object_keys (buildSnippetMap sn))"
    unfolding updateSnippets_fixed by blast
  show ?thesis unfolding updateSnippets_fixed
  proof (cases ev)
    case (KeyDown e)
    then show "\<exists>snippets. snippetMap (step ev st) = buildSnippetMap snippets \<and>
      shortcutList (step ev st) = sortLongestFirst (Object_keys (buildSnippetMap snippets))"
      using sn keydowns_frame [of "replicate (listeners st) e" st]
      by (auto simp: emitKeydown_def)
  next
    case (UpdateSnippets new)
    then show "\<exists>snippets. snippetMap (step ev st) = buildSnippetMap snippets \<and>
      shortcutList (step ev st) = sortLongestFirst (Object_keys (buildSnippetMap snippets))"
      by (auto simp: updateSnippets_def Let_def)
  next
    case (StartKeyListener h new)
    then show "\<exists>snippets. snippetMap (step ev st) = buildSnippetMap snippets \<and>
      shortcutList (step ev st) = sortLongestFirst (Object_keys (buildSnippetMap snippets))"
      by (auto simp: startKeyListener_def updateSnippets_def generatePopSound_def Let_def)
  next
    case StopKeyListener
    then show "\<exists>snippets. snippetMap (step ev st) = buildSnippetMap snippets \<and>
      shortcutList (step ev st) = sortLongestFirst (Object_keys (buildSnippetMap snippets))"
      using sn by (auto simp: stopKeyListener_def)
  next
    case Release
    then show "\<exists>snippets. snippetMap (step ev st) = buildSnippetMap snippets \<and>
      shortcutList (step ev st) = sortLongestFirst (Object_keys (buildSnippetMap snippets))"
      using sn by auto
  qed
qed

lemma run_index:
  "\<exists>snippets. st = updateSnippets snippets st \<Longrightarrow>
   \<exists>snippets. run evs st = updateSnippets snippets (run evs st)"
proof (induction evs arbitrary: st)
  case Nil
  then show ?case by simp
next
  case (Cons ev evs)
  show ?case using Cons.IH [OF step_index [OF Cons.prems]] by simp
qed

lemma reachable_index: "\<exists>snippets. run evs initial = updateSnippets snippets (run evs initial)"
proof (rule run_index)
  have "initial = updateSnippets [] initial"
    by (simp add: updateSnippets_def buildSnippetMap_def Object_keys_def sortLongestFirst_def
        initial_def Let_def)
  then show "\<exists>snippets. initial = updateSnippets snippets initial" ..
qed

subsection \<open>The bound, the unmapped keys, backspace and the table\<close>

lemma toLowerCase_tableChars: "set s \<subseteq> set tableChars \<Longrightarrow> toLowerCase s = s"
  unfolding toLowerCase_def by (rule map_idI) (auto dest: tableChars_lower)

lemma tableChars_not_upper:
  "c \<in> set tableChars \<Longrightarrow> \<not> (65 \<le> (of_char c :: nat) \<and> (of_char c :: nat) \<le> 90)"
  by (auto simp: tableChars_def KEYCODE_TABLE_def)

text \<open>
  C5. After any history of key events, index updates, starts, stops and lock releases the
  buffer has at most 50 characters. A buffer of at most 50 characters has at most 50
  after one more key event and after any run of key events. An append to a buffer of
  exactly 50 characters keeps the last 30 of the 51 characters, and that is the buffer the
  handler returns when no expansion is scheduled. The handler has no error result.
\<close>

theorem buffer_bounded:
  "length (buffer (run evs initial)) \<le> 50 \<and>
   (length (buffer st) \<le> 50 \<longrightarrow>
      length (buffer (fst (keydown e st))) \<le> 50 \<and>
      length (buffer (fst (keydowns es st))) \<le> 50) \<and>
   (\<not> expanding st \<and> KEYCODE_MAP (keycode e) = Some c \<and> length (buffer st) = 50 \<longrightarrow>
      buffer (appendChar c st) = drop 21 (buffer st @ [c]) \<and>
      length (buffer (appendChar c st)) = 30 \<and>
      (snd (keydown e st) = [CheckBufferMatch] \<longrightarrow>
         buffer (fst (keydown e st)) = drop 21 (buffer st @ [c])))"
proof (intro conjI impI)
  show "length (buffer (run evs initial)) \<le> 50" using reachable_invariant by blast
next
  assume "length (buffer st) \<le> 50"
  then show "length (buffer (fst (keydown e st))) \<le> 50"
    "length (buffer (fst (keydowns es st))) \<le> 50"
    by (rule keydown_length, rule keydowns_length)
next
  assume a: "\<not> expanding st \<and> KEYCODE_MAP (keycode e) = Some c \<and> length (buffer st) = 50"
  then show b: "buffer (appendChar c st) = drop 21 (buffer st @ [c])"
    by (simp add: buffer_appendChar)
  show "length (buffer (appendChar c st)) = 30" using a by (simp add: buffer_appendChar)
  assume s: "snd (keydown e st) = [CheckBufferMatch]"
  have nb: "keycode e \<noteq> BACKSPACE"
    using a by (auto simp: BACKSPACE_def KEYCODE_MAP_def KEYCODE_TABLE_def)
  show "buffer (fst (keydown e st)) = drop 21 (buffer st @ [c])"
    using keydown_mapped_cases [of st e c] a nb s b by auto
qed

text \<open>A thousand presses of \<^verbatim>\<open>a\<close> from the state at load time.\<close>

theorem buffer_bounded_witness:
  "length (buffer initial) \<le> 50 \<and>
   length (buffer (fst (keydowns (replicate 1000 (press 30)) initial))) \<le> 50 \<and>
   length (buffer (run (StartKeyListener mac [] # map KeyDown (replicate 1000 (press 30)))
     initial)) \<le> 50"
  using buffer_bounded [of "StartKeyListener mac [] # map KeyDown (replicate 1000 (press 30))"
      initial "press 30"
      "replicate 1000 (press 30)" "CHR ''a''"]
  by (simp add: initial_def)

text \<open>
  C6. A key event whose keycode is not in the table and is not backspace (which the handler
  tests before it looks the keycode up), in any state the listener reaches and in any
  state with the lock free: for space, enter, tab and escape (57, 28, 15, 1) the handler
  returns the state with the buffer empty and nothing else changed, for any other such
  keycode it returns the state as it is, and in both cases it calls nothing, so the match
  detector does not run.
\<close>

theorem unmapped_key:
  assumes "KEYCODE_MAP (keycode e) = None" and "keycode e \<noteq> BACKSPACE"
  shows "keydown e (run evs initial) =
           (if keycode e \<in> {57, 28, 15, 1} then (run evs initial)\<lparr>buffer := []\<rparr>
            else run evs initial, []) \<and>
         (\<not> expanding st \<longrightarrow>
            keydown e st = (if keycode e \<in> {57, 28, 15, 1} then st\<lparr>buffer := []\<rparr> else st, []))"
proof (intro conjI impI)
  show "keydown e (run evs initial) =
           (if keycode e \<in> {57, 28, 15, 1} then (run evs initial)\<lparr>buffer := []\<rparr>
            else run evs initial, [])"
  proof (cases "expanding (run evs initial)")
    case True
    then have "buffer (run evs initial) = []" using reachable_invariant by blast
    then have "(run evs initial)\<lparr>buffer := []\<rparr> = run evs initial" by simp
    then show ?thesis using True by (simp add: keydown_locked)
  next
    case False
    then show ?thesis using assms by (simp add: keydown_unmapped)
  qed
next
  assume "\<not> expanding st"
  then show "keydown e st = (if keycode e \<in> {57, 28, 15, 1} then st\<lparr>buffer := []\<rparr> else st, [])"
    using assms by (simp add: keydown_unmapped)
qed

text \<open>Space clears the buffer \<^verbatim>\<open>de\<close>; left shift (42) leaves it.\<close>

theorem unmapped_key_witness:
  "KEYCODE_MAP (keycode (press 57)) = None \<and> keycode (press 57) \<noteq> BACKSPACE \<and>
   KEYCODE_MAP (keycode (press 42)) = None \<and> keycode (press 42) \<noteq> BACKSPACE \<and>
   \<not> expanding (initial\<lparr>buffer := ''de''\<rparr>) \<and>
   keydown (press 57) (initial\<lparr>buffer := ''de''\<rparr>) = (initial, []) \<and>
   keydown (press 42) (initial\<lparr>buffer := ''de''\<rparr>) = (initial\<lparr>buffer := ''de''\<rparr>, [])"
proof -
  have h: "KEYCODE_MAP (keycode (press 57)) = None" "keycode (press 57) \<noteq> BACKSPACE"
    "KEYCODE_MAP (keycode (press 42)) = None" "keycode (press 42) \<noteq> BACKSPACE"
    "\<not> expanding (initial\<lparr>buffer := ''de''\<rparr>)"
    by (simp_all add: press_def BACKSPACE_def KEYCODE_MAP_def KEYCODE_TABLE_def initial_def)
  show ?thesis
    using unmapped_key [OF h(1,2), of "[]" "initial\<lparr>buffer := ''de''\<rparr>"]
      unmapped_key [OF h(3,4), of "[]" "initial\<lparr>buffer := ''de''\<rparr>"] h
    by (simp add: press_def initial_def)
qed

text \<open>
  One run of the handler: on backspace, in any state the listener reaches and in any state
  with the lock free, it returns the state with the last character of the buffer dropped
  and calls nothing; the match detector is called exactly when the lock is free, the key is
  not backspace and its keycode is in the table, on a buffer that ends with the character
  just appended.
\<close>

lemma backspace_run:
  "(keycode e = BACKSPACE \<longrightarrow>
      keydown e (run evs initial) =
        ((run evs initial)\<lparr>buffer := butlast (buffer (run evs initial))\<rparr>, []) \<and>
      (\<not> expanding st \<longrightarrow>
         keydown e st = (st\<lparr>buffer := butlast (buffer st)\<rparr>, []) \<and>
         (buffer st = [] \<longrightarrow> fst (keydown e st) = st) \<and>
         (\<forall>xs c. buffer st = xs @ [c] \<longrightarrow> buffer (fst (keydown e st)) = xs))) \<and>
   (CheckBufferMatch \<in> set (snd (keydown e st)) \<longleftrightarrow>
      \<not> expanding st \<and> keycode e \<noteq> BACKSPACE \<and> KEYCODE_MAP (keycode e) \<noteq> None) \<and>
   (CheckBufferMatch \<in> set (snd (keydown e st)) \<longrightarrow>
      (\<exists>c. KEYCODE_MAP (keycode e) = Some c \<and>
           (\<exists>old. buffer (appendChar c st) = old @ [c]) \<and>
           (fst (keydown e st) = appendChar c st \<or> buffer (fst (keydown e st)) = [])))"
proof -
  have bs: "keydown e st = (st\<lparr>buffer := butlast (buffer st)\<rparr>, [])"
    if "keycode e = BACKSPACE" "expanding st \<longrightarrow> buffer st = []" for st
  proof (cases "expanding st")
    case True
    then have "st\<lparr>buffer := butlast (buffer st)\<rparr> = st" using that by simp
    then show ?thesis using True by (simp add: keydown_locked)
  next
    case False
    then show ?thesis using that by (simp add: keydown_backspace)
  qed
  have r: "keydown e (run evs initial) =
        ((run evs initial)\<lparr>buffer := butlast (buffer (run evs initial))\<rparr>, [])"
    if "keycode e = BACKSPACE"
    using bs [OF that] reachable_invariant by blast
  have iff: "CheckBufferMatch \<in> set (snd (keydown e st)) \<longleftrightarrow>
      \<not> expanding st \<and> keycode e \<noteq> BACKSPACE \<and> KEYCODE_MAP (keycode e) \<noteq> None"
  proof (cases "expanding st")
    case True
    then show ?thesis by (simp add: keydown_locked)
  next
    case unlocked: False
    show ?thesis
    proof (cases "keycode e = BACKSPACE")
      case True
      then show ?thesis using unlocked by (simp add: keydown_backspace)
    next
      case nb: False
      show ?thesis
      proof (cases "KEYCODE_MAP (keycode e)")
        case None
        then show ?thesis using unlocked nb by (simp add: keydown_unmapped)
      next
        case (Some c)
        then show ?thesis using unlocked nb keydown_mapped_cases [OF unlocked nb Some] by auto
      qed
    qed
  qed
  have app: "\<exists>c. KEYCODE_MAP (keycode e) = Some c \<and>
                 (\<exists>old. buffer (appendChar c st) = old @ [c]) \<and>
                 (fst (keydown e st) = appendChar c st \<or> buffer (fst (keydown e st)) = [])"
    if "CheckBufferMatch \<in> set (snd (keydown e st))"
  proof -
    from that iff obtain c where u: "\<not> expanding st" "keycode e \<noteq> BACKSPACE"
      and c: "KEYCODE_MAP (keycode e) = Some c" by auto
    have "\<exists>old. buffer (appendChar c st) = old @ [c]"
      by (simp add: buffer_appendChar)
    then show ?thesis using keydown_mapped_cases [OF u c] c by auto
  qed
  show ?thesis using bs [of st] r iff app by (auto simp: butlast_append)
qed

lemma backspace_one_handler:
  assumes "keycode e = BACKSPACE" and "listeners (run evs initial) = Suc 0"
  shows "emitKeydown e (run evs initial) =
           ((run evs initial)\<lparr>buffer := butlast (buffer (run evs initial))\<rparr>, [])"
  using backspace_run [of e evs] assms by (simp add: emitKeydown_one)

text \<open>
  C7. With the handler registered once, a backspace event drops the last character of the
  buffer and calls nothing (\<open>backspace_one_handler\<close>), and no run of the handler calls
  the match detector but after an append (\<open>backspace_run\<close>). A backspace event does
  not drop exactly one character once the listener was started, stopped and started
  again, or started again after a start in which \<^verbatim>\<open>uiohook.start()\<close> threw: the
  handler is then registered twice on the same hook. Typing d, e, v leaves
  \<^verbatim>\<open>ddeevv\<close> in the buffer, and one backspace event leaves \<^verbatim>\<open>ddee\<close>. After a single
  start the same keys leave \<^verbatim>\<open>dev\<close> and then \<^verbatim>\<open>de\<close>.
\<close>

theorem backspace_with_two_handlers:
  "listeners (run [StartKeyListener mac [], StopKeyListener, StartKeyListener mac []] initial) = 2 \<and>
   buffer (run [StartKeyListener mac [], StopKeyListener, StartKeyListener mac [],
                KeyDown (press 32), KeyDown (press 18), KeyDown (press 47)] initial) = ''ddeevv'' \<and>
   buffer (run [StartKeyListener mac [], StopKeyListener, StartKeyListener mac [],
                KeyDown (press 32), KeyDown (press 18), KeyDown (press 47),
                KeyDown (press 14)] initial) = ''ddee'' \<and>
   listeners (run [StartKeyListener (mac\<lparr>startThrows := True\<rparr>) [],
                   StartKeyListener mac []] initial) = 2 \<and>
   buffer (run [StartKeyListener (mac\<lparr>startThrows := True\<rparr>) [], StartKeyListener mac [],
                KeyDown (press 32), KeyDown (press 18), KeyDown (press 47),
                KeyDown (press 14)] initial) = ''ddee'' \<and>
   buffer (run [StartKeyListener mac [],
                KeyDown (press 32), KeyDown (press 18), KeyDown (press 47)] initial) = ''dev'' \<and>
   buffer (run [StartKeyListener mac [],
                KeyDown (press 32), KeyDown (press 18), KeyDown (press 47),
                KeyDown (press 14)] initial) = ''de''"
  by (simp add: emitKeydown_def keydown_def press_def BACKSPACE_def KEYCODE_MAP_def
      KEYCODE_TABLE_def checkBufferMatch_def startKeyListener_def stopKeyListener_def
      generatePopSound_def mac_def buildSnippetMap_def Object_keys_def sortLongestFirst_def
      slice_def initial_def Let_def numeral_2_eq_2)

lemma appendChar_chars:
  "set (buffer st) \<subseteq> set tableChars \<Longrightarrow> c \<in> set tableChars \<Longrightarrow>
   set (buffer (appendChar c st)) \<subseteq> set tableChars"
  by (auto simp: buffer_appendChar split: if_splits dest: in_set_dropD)

text \<open>
  C10. The table has 46 distinct characters: the lowercase letters, the digits and ten
  symbols. A key event adds nothing to the buffer but a character of the table. After any
  history the buffer is made of table characters, has no character between A and Z and is
  its own lowercase form, and so is the buffer the match detector lowercases after an
  append. The handler's result does not depend on \<^verbatim>\<open>shiftKey\<close>.
\<close>

theorem buffer_table_chars:
  "length tableChars = 46 \<and> distinct tableChars \<and>
   set tableChars =
     set (''abcdefghijklmnopqrstuvwxyz0123456789-=[]'' @ [CHR 0x5C] @ '';'' @ [CHR 0x27] @ '',./'') \<and>
   (\<forall>c. KEYCODE_MAP (keycode e) = Some c \<longrightarrow>
      c \<in> set tableChars \<and>
      toLowerCase (buffer (appendChar c (run evs initial))) =
        buffer (appendChar c (run evs initial))) \<and>
   set (buffer (fst (keydown e st))) \<subseteq> set (buffer st) \<union> set tableChars \<and>
   set (buffer (run evs initial)) \<subseteq> set tableChars \<and>
   (\<forall>c \<in> set (buffer (run evs initial)).
      \<not> (65 \<le> (of_char c :: nat) \<and> (of_char c :: nat) \<le> 90)) \<and>
   toLowerCase (buffer (run evs initial)) = buffer (run evs initial) \<and>
   keydown (e\<lparr>shiftKey := b\<rparr>) st = keydown e st"
proof -
  have r: "set (buffer (run evs initial)) \<subseteq> set tableChars"
    using reachable_invariant by blast
  have a: "c \<in> set tableChars \<and>
      toLowerCase (buffer (appendChar c (run evs initial))) =
        buffer (appendChar c (run evs initial))"
    if "KEYCODE_MAP (keycode e) = Some c" for c
  proof -
    have c: "c \<in> set tableChars" using that by (rule KEYCODE_MAP_tableChars)
    then show ?thesis using appendChar_chars [OF r c] by (simp add: toLowerCase_tableChars)
  qed
  have u: "\<forall>c \<in> set (buffer (run evs initial)).
      \<not> (65 \<le> (of_char c :: nat) \<and> (of_char c :: nat) \<le> 90)"
    using r tableChars_not_upper by blast
  have s: "keydown (e\<lparr>shiftKey := b\<rparr>) st = keydown e st"
    by (rule keydown_keycode_only) simp
  show ?thesis
    using tableChars_count tableChars_set a keydown_chars [of e st] r u
      toLowerCase_tableChars [OF r] s
    by blast
qed

text \<open>The key \<^verbatim>\<open>1\<close> with and without shift.\<close>

theorem buffer_table_chars_witness:
  "KEYCODE_MAP (keycode (press 2)) = Some (CHR ''1'') \<and>
   CHR ''1'' \<in> set tableChars \<and>
   toLowerCase (buffer (appendChar (CHR ''1'')
       (run [StartKeyListener mac [], KeyDown (press 32)] initial))) =
     buffer (appendChar (CHR ''1'') (run [StartKeyListener mac [], KeyDown (press 32)] initial)) \<and>
   keydown ((press 2)\<lparr>shiftKey := True\<rparr>) (initial\<lparr>buffer := ''dev''\<rparr>) =
     keydown (press 2) (initial\<lparr>buffer := ''dev''\<rparr>)"
proof -
  have k: "KEYCODE_MAP (keycode (press 2)) = Some (CHR ''1'')"
    by (simp add: press_def KEYCODE_MAP_def KEYCODE_TABLE_def)
  show ?thesis
    using buffer_table_chars [of "press 2" "[StartKeyListener mac [], KeyDown (press 32)]"
        "initial\<lparr>buffer := ''dev''\<rparr>" True] k
    by blast
qed

subsection \<open>The expansion, phase by phase\<close>

lemma engine_playPopSound: "engine (playPopSound f w) = engine w"
  by (simp add: playPopSound_def)

lemma clipboard_playPopSound: "clipboard (playPopSound f w) = clipboard w"
  by (simp add: playPopSound_def)

lemma db_playPopSound: "db (playPopSound f w) = db w"
  by (simp add: playPopSound_def)

lemma runExpansion_throws:
  "writeTextThrows f \<Longrightarrow>
   runExpansion f n t w = (playPopSound f w, Inl (Error ''clipboard.writeText''))"
  by (simp add: runExpansion_def Let_def)

lemma runExpansion_returns:
  "\<not> writeTextThrows f \<Longrightarrow>
   runExpansion f n t w =
     ((playPopSound f w)\<lparr>clipboard := writeText t\<rparr>,
      Inr \<lparr>deleteCount = n,
           savedText = (if readImageThrows f \<or> clipImage (clipboard w) \<noteq> None \<or> readTextThrows f
                        then None else Some (clipText (clipboard w))),
           savedImage = (if readImageThrows f then None else clipImage (clipboard w))\<rparr>)"
  by (auto simp: runExpansion_def Let_def clipboard_playPopSound split: option.splits)

lemma expansionTask_throws:
  "writeTextThrows f \<Longrightarrow>
   expansionTask f n (Some s) w = (playPopSound f w, Inl (Error ''clipboard.writeText''))"
  by (simp add: expansionTask_def runExpansion_throws)

lemma expansionTask_returns:
  "\<not> writeTextThrows f \<Longrightarrow>
   expansionTask f n (Some s) w =
     (reportUsage f (id_snippet s) ((playPopSound f w)\<lparr>clipboard := writeText (body s)\<rparr>),
      Inr \<lparr>deleteCount = n,
           savedText = (if readImageThrows f \<or> clipImage (clipboard w) \<noteq> None \<or> readTextThrows f
                        then None else Some (clipText (clipboard w))),
           savedImage = (if readImageThrows f then None else clipImage (clipboard w))\<rparr>)"
  by (simp add: expansionTask_def runExpansion_returns)

lemma engine_reportUsage: "engine (reportUsage f i w) = engine w"
  by (simp add: reportUsage_def)

lemma clipboard_reportUsage: "clipboard (reportUsage f i w) = clipboard w"
  by (simp add: reportUsage_def)

lemma expanding_restoreTimer: "\<not> expanding (engine (restoreTimer f p w))"
  by (simp add: restoreTimer_def Let_def)

lemma clipboard_restoreTimer:
  "\<not> restoreThrows f \<Longrightarrow>
   clipboard (restoreTimer f p w) =
     (case savedImage p of Some img \<Rightarrow> writeImage img
      | None \<Rightarrow> (case savedText p of Some t \<Rightarrow> writeText t | None \<Rightarrow> clear))"
  by (simp add: restoreTimer_def Let_def)

lemma db_restoreTimer: "db (restoreTimer f p w) = db w"
  by (simp add: restoreTimer_def Let_def)

lemma db_execFileCallback: "db (execFileCallback err w) = db w"
  by (simp add: execFileCallback_def split: option.splits)

lemma expansion_exits:
  "\<not> writeTextThrows f \<Longrightarrow> osascript f = Exits err \<Longrightarrow>
   expansion f n (Some s) w =
     (restoreTimer f (projr (snd (expansionTask f n (Some s) w)))
        (execFileCallback err (fst (expansionTask f n (Some s) w))), None)"
  by (simp add: expansion_def expansionTask_returns)

lemma expansion_releases_lock:
  assumes "\<not> writeTextThrows f" "osascript f = Exits err"
  shows "snd (expansion f n (Some s) w) = None \<and> \<not> expanding (engine (fst (expansion f n (Some s) w)))"
  by (simp add: expansion_exits [OF assms] expanding_restoreTimer)

lemma expansion_throws:
  "writeTextThrows f \<Longrightarrow>
   expansion f n (Some s) w = (playPopSound f w, Some (Error ''clipboard.writeText''))"
  by (simp add: expansion_def expansionTask_throws)

text \<open>
  C2. The lock is released whenever \<^verbatim>\<open>clipboard.writeText(expandedText)\<close> returns and
  \<^verbatim>\<open>osascript\<close> exits, whatever else fails (\<open>expansion_releases_lock\<close>). It is not
  released when that write throws. The listener is started with the shortcut
  \<^verbatim>\<open>dev1\<close> and the keys d, e, v, 1 are typed: the handler calls the match detector four
  times, schedules the expansion of four characters and sets the lock. In the run where
  the write throws, the exception leaves the scheduled callback and the lock is still set
  afterwards, so that typing the shortcut again changes nothing and calls nothing. In the
  run where nothing throws, no exception leaves and the lock is released.
\<close>

theorem clipboard_write_failure_keeps_lock:
  "snd typed_dev1 =
     [CheckBufferMatch, CheckBufferMatch, CheckBufferMatch, CheckBufferMatch,
      SetImmediate 4 (Some dev1)] \<and>
   expanding (fst typed_dev1) \<and>
   snd (expansion (noFaults\<lparr>writeTextThrows := True\<rparr>) 4 (Some dev1) (desk (fst typed_dev1))) =
     Some (Error ''clipboard.writeText'') \<and>
   expanding (engine (fst
     (expansion (noFaults\<lparr>writeTextThrows := True\<rparr>) 4 (Some dev1) (desk (fst typed_dev1))))) \<and>
   keydowns [press 32, press 18, press 47, press 2] (engine (fst
     (expansion (noFaults\<lparr>writeTextThrows := True\<rparr>) 4 (Some dev1) (desk (fst typed_dev1))))) =
     (fst typed_dev1, []) \<and>
   snd (expansion noFaults 4 (Some dev1) (desk (fst typed_dev1))) = None \<and>
   \<not> expanding (engine (fst (expansion noFaults 4 (Some dev1) (desk (fst typed_dev1)))))"
proof -
  have k: "typed_dev1 =
      ((startKeyListener mac [dev1] initial)\<lparr>expanding := True\<rparr>,
       [CheckBufferMatch, CheckBufferMatch, CheckBufferMatch, CheckBufferMatch,
        SetImmediate 4 (Some dev1)])"
    by (simp add: typed_dev1_def dev1_def keydown_def press_def BACKSPACE_def KEYCODE_MAP_def
        KEYCODE_TABLE_def checkBufferMatch_def startKeyListener_def generatePopSound_def
        mac_def buildSnippetMap_def setProperty_def Object_keys_def isArrayIndex_def
        isDigit_def sortLongestFirst_def toLowerCase_def toLowerCase_char_def endsWith_def
        snip_def initial_def Let_def)
  have w: "writeTextThrows (noFaults\<lparr>writeTextThrows := True\<rparr>)" by simp
  have l: "keydowns [press 32, press 18, press 47, press 2]
             ((startKeyListener mac [dev1] initial)\<lparr>expanding := True\<rparr>) =
           ((startKeyListener mac [dev1] initial)\<lparr>expanding := True\<rparr>, [])"
    by (rule keydowns_locked) simp
  have n: "\<not> writeTextThrows noFaults" "osascript noFaults = Exits None"
    by (simp_all add: noFaults_def)
  have r: "snd (expansion noFaults 4 (Some dev1) (desk (fst typed_dev1))) = None"
    "\<not> expanding (engine (fst (expansion noFaults 4 (Some dev1) (desk (fst typed_dev1)))))"
    using expansion_releases_lock [OF n] by simp_all
  have t: "snd typed_dev1 =
     [CheckBufferMatch, CheckBufferMatch, CheckBufferMatch, CheckBufferMatch,
      SetImmediate 4 (Some dev1)]" "expanding (fst typed_dev1)"
    by (simp_all add: k)
  have e: "expansion (noFaults\<lparr>writeTextThrows := True\<rparr>) 4 (Some dev1) (desk (fst typed_dev1)) =
      (playPopSound (noFaults\<lparr>writeTextThrows := True\<rparr>) (desk (fst typed_dev1)),
       Some (Error ''clipboard.writeText''))"
    by (rule expansion_throws [OF w])
  have g: "engine (playPopSound (noFaults\<lparr>writeTextThrows := True\<rparr>) (desk (fst typed_dev1))) =
      fst typed_dev1"
    by (simp add: engine_playPopSound desk_def)
  have x: "keydowns [press 32, press 18, press 47, press 2] (fst typed_dev1) = (fst typed_dev1, [])"
    unfolding k using l by simp
  show ?thesis unfolding e using t r g x by simp
qed

subsection \<open>Clipboard, usage report and index replacement\<close>

text \<open>
  C4. In an expansion where the write of the expansion text and the restore do not throw
  and \<^verbatim>\<open>osascript\<close> exits, with or without an error: the clipboard holds the snippet's
  body while the paste is pending; the snapshot is the image when one was read, else the
  text when it was read, else nothing; after the timer the clipboard holds the saved
  image, else the saved text, else it is cleared. When neither read throws and the
  clipboard held the text X and no image before, it holds the text X and no image after.
\<close>

theorem clipboard_round_trip:
  assumes "\<not> writeTextThrows f" and "\<not> restoreThrows f" and "osascript f = Exits err"
  shows "clipboard (fst (expansionTask f n (Some s) w)) = writeText (body s) \<and>
         (\<exists>p. snd (expansionTask f n (Some s) w) = Inr p \<and>
              savedImage p = (if readImageThrows f then None else clipImage (clipboard w)) \<and>
              savedText p =
                (if readImageThrows f \<or> clipImage (clipboard w) \<noteq> None \<or> readTextThrows f
                 then None else Some (clipText (clipboard w))) \<and>
              clipboard (fst (expansion f n (Some s) w)) =
                (case savedImage p of
                   Some img \<Rightarrow> writeImage img
                 | None \<Rightarrow> (case savedText p of Some t \<Rightarrow> writeText t | None \<Rightarrow> clear))) \<and>
         (\<not> readImageThrows f \<and> \<not> readTextThrows f \<and>
          clipboard w = \<lparr>clipText = X, clipImage = None\<rparr> \<longrightarrow>
            clipboard (fst (expansion f n (Some s) w)) = \<lparr>clipText = X, clipImage = None\<rparr>)"
proof -
  let ?p = "\<lparr>deleteCount = n,
           savedText = (if readImageThrows f \<or> clipImage (clipboard w) \<noteq> None \<or> readTextThrows f
                        then None else Some (clipText (clipboard w))),
           savedImage = (if readImageThrows f then None else clipImage (clipboard w))\<rparr>"
  have t: "snd (expansionTask f n (Some s) w) = Inr ?p"
    by (simp add: expansionTask_returns [OF assms(1)])
  have c: "clipboard (fst (expansionTask f n (Some s) w)) = writeText (body s)"
    by (simp add: expansionTask_returns [OF assms(1)] clipboard_reportUsage)
  have r: "clipboard (fst (expansion f n (Some s) w)) =
      (case savedImage ?p of
         Some img \<Rightarrow> writeImage img
       | None \<Rightarrow> (case savedText ?p of Some t \<Rightarrow> writeText t | None \<Rightarrow> clear))"
    unfolding expansion_exits [OF assms(1,3)] t
    by (simp add: clipboard_restoreTimer [OF assms(2)])
  have rt: "clipboard (fst (expansion f n (Some s) w)) = \<lparr>clipText = X, clipImage = None\<rparr>"
    if "\<not> readImageThrows f \<and> \<not> readTextThrows f \<and> clipboard w = \<lparr>clipText = X, clipImage = None\<rparr>"
    unfolding r using that by (simp add: writeText_def)
  show ?thesis
  proof (intro conjI)
    show "clipboard (fst (expansionTask f n (Some s) w)) = writeText (body s)" by (rule c)
    show "\<exists>p. snd (expansionTask f n (Some s) w) = Inr p \<and>
              savedImage p = (if readImageThrows f then None else clipImage (clipboard w)) \<and>
              savedText p =
                (if readImageThrows f \<or> clipImage (clipboard w) \<noteq> None \<or> readTextThrows f
                 then None else Some (clipText (clipboard w))) \<and>
              clipboard (fst (expansion f n (Some s) w)) =
                (case savedImage p of
                   Some img \<Rightarrow> writeImage img
                 | None \<Rightarrow> (case savedText p of Some t \<Rightarrow> writeText t | None \<Rightarrow> clear))"
      by (rule exI [of _ ?p]) (simp add: t r)
    show "\<not> readImageThrows f \<and> \<not> readTextThrows f \<and>
          clipboard w = \<lparr>clipText = X, clipImage = None\<rparr> \<longrightarrow>
            clipboard (fst (expansion f n (Some s) w)) = \<lparr>clipText = X, clipImage = None\<rparr>"
      using rt by blast
  qed
qed

text \<open>The clipboard holds X, the snippet's body is Y, nothing fails.\<close>

theorem clipboard_round_trip_witness:
  "\<not> writeTextThrows noFaults \<and> \<not> restoreThrows noFaults \<and> osascript noFaults = Exits None \<and>
   \<not> readImageThrows noFaults \<and> \<not> readTextThrows noFaults \<and>
   clipboard \<lparr>engine = initial\<lparr>expanding := True\<rparr>, clipboard = \<lparr>clipText = ''X'', clipImage = None\<rparr>,
              db = \<lparr>snippets_table = [], expansion_log = []\<rparr>, popsPlayed = 0\<rparr> =
     \<lparr>clipText = ''X'', clipImage = None\<rparr> \<and>
   clipboard (fst (expansionTask noFaults 4 (Some (snip 1 ''dev1'' ''Y''))
     \<lparr>engine = initial\<lparr>expanding := True\<rparr>, clipboard = \<lparr>clipText = ''X'', clipImage = None\<rparr>,
      db = \<lparr>snippets_table = [], expansion_log = []\<rparr>, popsPlayed = 0\<rparr>)) = writeText ''Y'' \<and>
   clipboard (fst (expansion noFaults 4 (Some (snip 1 ''dev1'' ''Y''))
     \<lparr>engine = initial\<lparr>expanding := True\<rparr>, clipboard = \<lparr>clipText = ''X'', clipImage = None\<rparr>,
      db = \<lparr>snippets_table = [], expansion_log = []\<rparr>, popsPlayed = 0\<rparr>)) =
     \<lparr>clipText = ''X'', clipImage = None\<rparr>"
proof -
  have h: "\<not> writeTextThrows noFaults" "\<not> restoreThrows noFaults" "osascript noFaults = Exits None"
    "\<not> readImageThrows noFaults" "\<not> readTextThrows noFaults"
    by (simp_all add: noFaults_def)
  show ?thesis
    using clipboard_round_trip [OF h(1,2,3), of 4 "snip 1 ''dev1'' ''Y''"
        "\<lparr>engine = initial\<lparr>expanding := True\<rparr>, clipboard = \<lparr>clipText = ''X'', clipImage = None\<rparr>,
          db = \<lparr>snippets_table = [], expansion_log = []\<rparr>, popsPlayed = 0\<rparr>" "''X''"] h
    by (simp add: snip_def)
qed

lemma sqlAddOne_cases:
  "c < 2 ^ 63 - 1 \<Longrightarrow> sqlAddOne (SqlInteger c) = SqlInteger (c + 1)"
  "sqlAddOne (SqlInteger (2 ^ 63 - 1)) = SqlReal_2_63"
  "sqlAddOne SqlReal_2_63 = SqlReal_2_63"
  by (simp_all add: sqlAddOne_def)

lemma find_incremented:
  "find (\<lambda>r. id_snippet r = i)
     (map (\<lambda>r. if id_snippet r = i then r\<lparr>usage_count := sqlAddOne (usage_count r)\<rparr> else r) xs) =
   map_option (\<lambda>r. r\<lparr>usage_count := sqlAddOne (usage_count r)\<rparr>)
     (find (\<lambda>r. id_snippet r = i) xs)"
  by (induction xs) auto

lemma incrementUsage_ok:
  assumes "find (\<lambda>r. id_snippet r = i) (snippets_table d) = Some r"
  shows "incrementUsage None i d =
     (\<lparr>snippets_table =
          map (\<lambda>r. if id_snippet r = i then r\<lparr>usage_count := sqlAddOne (usage_count r)\<rparr> else r)
            (snippets_table d),
        expansion_log = expansion_log d @
          [\<lparr>log_snippet_id = i, log_shortcut = shortcut r,
            chars_expanded = int (length (body r)),
            chars_shortcut = int (length (shortcut r))\<rparr>]\<rparr>, None)"
  using assms by (simp add: incrementUsage_def Let_def find_incremented)

lemma db_expansion:
  "db (fst (expansion f n (Some s) w)) = db (fst (expansionTask f n (Some s) w))"
  by (cases "expansionTask f n (Some s) w"; cases "snd (expansionTask f n (Some s) w)"; cases "osascript f")
     (auto simp: expansion_def db_restoreTimer db_execFileCallback)

text \<open>
  C9. In an expansion whose clipboard write returns, so in every successful one: when the
  report does not throw, the table has a row with the snippet's id and the usage count of
  that row is an integer below the largest 64-bit integer, the database afterwards has
  the \<^verbatim>\<open>UPDATE\<close> applied to the rows with this id, that row read back with its count one
  higher, and one more log record at the end, with the id, the row's shortcut and the
  lengths of the row's body and shortcut. Whether or not the report throws, and at whatever
  statement, no exception leaves the scheduled callback, the callback leaves the module
  state as it found it, and once \<^verbatim>\<open>osascript\<close> exits the expansion ends with no exception
  and the lock released. What the \<^verbatim>\<open>UPDATE\<close> does at and after the largest 64-bit
  integer is \<open>sqlAddOne_cases\<close>.
\<close>

theorem usage_reported:
  assumes "\<not> writeTextThrows f"
  shows "(reportThrows f = None \<and>
          find (\<lambda>r. id_snippet r = id_snippet s) (snippets_table (db w)) = Some r \<and>
          usage_count r = SqlInteger c \<and> c < 2 ^ 63 - 1 \<longrightarrow>
            db (fst (expansion f n (Some s) w)) =
              \<lparr>snippets_table =
                 map (\<lambda>r. if id_snippet r = id_snippet s
                          then r\<lparr>usage_count := sqlAddOne (usage_count r)\<rparr> else r)
                   (snippets_table (db w)),
               expansion_log = expansion_log (db w) @
                 [\<lparr>log_snippet_id = id_snippet s, log_shortcut = shortcut r,
                   chars_expanded = int (length (body r)),
                   chars_shortcut = int (length (shortcut r))\<rparr>]\<rparr> \<and>
            find (\<lambda>r. id_snippet r = id_snippet s)
              (snippets_table (db (fst (expansion f n (Some s) w)))) =
              Some (r\<lparr>usage_count := SqlInteger (c + 1)\<rparr>)) \<and>
         (\<exists>p. snd (expansionTask f n (Some s) w) = Inr p) \<and>
         engine (fst (expansionTask f n (Some s) w)) = engine w \<and>
         (\<forall>err. osascript f = Exits err \<longrightarrow>
            snd (expansion f n (Some s) w) = None \<and>
            \<not> expanding (engine (fst (expansion f n (Some s) w))))"
proof (intro conjI impI allI)
  assume a: "reportThrows f = None \<and>
          find (\<lambda>r. id_snippet r = id_snippet s) (snippets_table (db w)) = Some r \<and>
          usage_count r = SqlInteger c \<and> c < 2 ^ 63 - 1"
  show d: "db (fst (expansion f n (Some s) w)) =
              \<lparr>snippets_table =
                 map (\<lambda>r. if id_snippet r = id_snippet s
                          then r\<lparr>usage_count := sqlAddOne (usage_count r)\<rparr> else r)
                   (snippets_table (db w)),
               expansion_log = expansion_log (db w) @
                 [\<lparr>log_snippet_id = id_snippet s, log_shortcut = shortcut r,
                   chars_expanded = int (length (body r)),
                   chars_shortcut = int (length (shortcut r))\<rparr>]\<rparr>"
    using a unfolding db_expansion expansionTask_returns [OF assms]
    by (simp add: reportUsage_def db_playPopSound incrementUsage_ok)
  show "find (\<lambda>r. id_snippet r = id_snippet s)
              (snippets_table (db (fst (expansion f n (Some s) w)))) =
              Some (r\<lparr>usage_count := SqlInteger (c + 1)\<rparr>)"
    unfolding d using a by (simp add: find_incremented sqlAddOne_cases(1))
next
  show "\<exists>p. snd (expansionTask f n (Some s) w) = Inr p"
    by (simp add: expansionTask_returns [OF assms])
  show "engine (fst (expansionTask f n (Some s) w)) = engine w"
    by (simp add: expansionTask_returns [OF assms] engine_reportUsage engine_playPopSound)
next
  fix err assume e: "osascript f = Exits err"
  show "snd (expansion f n (Some s) w) = None"
    "\<not> expanding (engine (fst (expansion f n (Some s) w)))"
    using expansion_releases_lock [OF assms e] by simp_all
qed

text \<open>One expansion of \<^verbatim>\<open>dev1\<close> with a working report, and one whose \<^verbatim>\<open>INSERT\<close> throws.\<close>

theorem usage_reported_witness:
  "\<not> writeTextThrows noFaults \<and> reportThrows noFaults = None \<and> osascript noFaults = Exits None \<and>
   find (\<lambda>r. id_snippet r = id_snippet dev1) (snippets_table (db (desk (fst typed_dev1)))) =
     Some dev1 \<and>
   usage_count dev1 = SqlInteger 0 \<and> (0 :: int) < 2 ^ 63 - 1 \<and>
   db (fst (expansion noFaults 4 (Some dev1) (desk (fst typed_dev1)))) =
     \<lparr>snippets_table = [dev1\<lparr>usage_count := SqlInteger 1\<rparr>],
      expansion_log = [\<lparr>log_snippet_id = 1, log_shortcut = ''dev1'', chars_expanded = 3,
                        chars_shortcut = 4\<rparr>]\<rparr> \<and>
   \<not> writeTextThrows (noFaults\<lparr>reportThrows := Some Insert\<rparr>) \<and>
   osascript (noFaults\<lparr>reportThrows := Some Insert\<rparr>) = Exits None \<and>
   snd (expansion (noFaults\<lparr>reportThrows := Some Insert\<rparr>) 4 (Some dev1)
          (desk (fst typed_dev1))) = None \<and>
   \<not> expanding (engine (fst (expansion (noFaults\<lparr>reportThrows := Some Insert\<rparr>) 4 (Some dev1)
          (desk (fst typed_dev1)))))"
proof -
  let ?w = "desk (fst typed_dev1)"
  have h: "\<not> writeTextThrows noFaults" "reportThrows noFaults = None"
    "osascript noFaults = Exits None"
    "\<not> writeTextThrows (noFaults\<lparr>reportThrows := Some Insert\<rparr>)"
    "osascript (noFaults\<lparr>reportThrows := Some Insert\<rparr>) = Exits None"
    by (simp_all add: noFaults_def)
  have r: "find (\<lambda>r. id_snippet r = id_snippet dev1) (snippets_table (db ?w)) = Some dev1"
    "usage_count dev1 = SqlInteger 0" "(0 :: int) < 2 ^ 63 - 1"
    by (simp_all add: desk_def dev1_def snip_def)
  have t: "snippets_table (db ?w) = [dev1]" "expansion_log (db ?w) = []"
    by (simp_all add: desk_def)
  have v: "id_snippet dev1 = 1" "shortcut dev1 = ''dev1''" "body dev1 = ''one''"
    by (simp_all add: dev1_def snip_def)
  have u: "sqlAddOne (SqlInteger 0) = SqlInteger 1" by (simp add: sqlAddOne_def)
  show ?thesis
    using usage_reported [OF h(1), of dev1 ?w dev1 0 4]
      usage_reported [OF h(4), of dev1 ?w dev1 0 4] h r
    by (simp add: t v u)
qed

subsection \<open>What the index holds\<close>

lemma map_of_setProperty:
  "map_of (setProperty m k v) k' =
     (if k = ''__proto__'' then map_of m k' else if k' = k then Some v else map_of m k')"
  by (simp add: setProperty_def update_conv')

lemma map_of_foldl_setProperty:
  "map_of (foldl (\<lambda>m s. setProperty m (toLowerCase (shortcut s)) s) m snippets) k =
     (if k = ''__proto__'' then map_of m k
      else case find (\<lambda>s. toLowerCase (shortcut s) = k) (rev snippets) of
             None \<Rightarrow> map_of m k
           | Some s \<Rightarrow> Some s)"
proof (induction snippets rule: rev_induct)
  case Nil
  then show ?case by simp
next
  case (snoc x xs)
  then show ?case by (cases "k = ''__proto__''") (auto simp: map_of_setProperty)
qed

lemma map_of_buildSnippetMap_last:
  "map_of (buildSnippetMap snippets) k =
     (if k = ''__proto__'' then None
      else find (\<lambda>s. toLowerCase (shortcut s) = k) (rev snippets))"
  by (simp add: buildSnippetMap_def map_of_foldl_setProperty split: option.split)

lemma distinct_setProperty:
  "distinct (map fst m) \<Longrightarrow> distinct (map fst (setProperty m k v))"
  by (simp add: setProperty_def distinct_update)

lemma distinct_buildSnippetMap: "distinct (map fst (buildSnippetMap snippets))"
proof -
  have "distinct (map fst (foldl (\<lambda>m s. setProperty m (toLowerCase (shortcut s)) s) [] snippets))"
    by (induction snippets rule: rev_induct) (simp_all add: distinct_setProperty)
  then show ?thesis by (simp add: buildSnippetMap_def)
qed

lemma distinct_Object_keys: "distinct (map fst obj) \<Longrightarrow> distinct (Object_keys obj)"
  by (auto simp: Object_keys_def)

lemma find_SomeD: "find P xs = Some x \<Longrightarrow> x \<in> set xs \<and> P x"
  by (induction xs) (auto split: if_splits)

lemma keys_buildSnippetMap:
  "fst ` set (buildSnippetMap snippets) =
     (\<lambda>s. toLowerCase (shortcut s)) ` set snippets - {''__proto__''}"
proof -
  have "fst ` set (buildSnippetMap snippets) = dom (map_of (buildSnippetMap snippets))"
    by (simp add: dom_map_of_conv_image_fst)
  also have "\<dots> = (\<lambda>s. toLowerCase (shortcut s)) ` set snippets - {''__proto__''}"
  proof (intro set_eqI iffI)
    fix k assume "k \<in> dom (map_of (buildSnippetMap snippets))"
    then obtain s where k: "k \<noteq> ''__proto__''"
      and f: "find (\<lambda>s. toLowerCase (shortcut s) = k) (rev snippets) = Some s"
      by (auto simp: map_of_buildSnippetMap_last split: if_splits)
    from f have "s \<in> set (rev snippets) \<and> toLowerCase (shortcut s) = k"
      by (rule find_SomeD)
    then have "s \<in> set snippets \<and> toLowerCase (shortcut s) = k" by simp
    then show "k \<in> (\<lambda>s. toLowerCase (shortcut s)) ` set snippets - {''__proto__''}"
      using k by auto
  next
    fix k assume "k \<in> (\<lambda>s. toLowerCase (shortcut s)) ` set snippets - {''__proto__''}"
    then obtain s where "s \<in> set (rev snippets)" "toLowerCase (shortcut s) = k"
      and k: "k \<noteq> ''__proto__''" by auto
    then have "find (\<lambda>s. toLowerCase (shortcut s) = k) (rev snippets) \<noteq> None"
      by (auto simp: find_None_iff)
    then show "k \<in> dom (map_of (buildSnippetMap snippets))"
      using k by (auto simp: map_of_buildSnippetMap_last)
  qed
  finally show ?thesis .
qed

text \<open>
  C8, as the code has it. \<^verbatim>\<open>updateSnippets\<close> replaces the index: the new map gives for
  every key the last of the new snippets with this lowercased shortcut (none for
  \<^verbatim>\<open>__proto__\<close>), the new list holds every key of the map once, longest first, the old
  index has no part in the new one, and every other field, the buffer and the lock among
  them, stays as it was. \<^verbatim>\<open>startKeyListener\<close> on an active listener first runs the check
  of \<^verbatim>\<open>popSoundPath\<close> that opens the function, which writes the sound file when none was
  written yet, and is then exactly \<^verbatim>\<open>updateSnippets\<close>: it leaves the same index as
  \<^verbatim>\<open>updateSnippets\<close> and the buffer and the lock as they were.
\<close>

theorem updateSnippets_frame:
  "map_of (snippetMap (updateSnippets snippets st)) k =
     (if k = ''__proto__'' then None
      else find (\<lambda>s. toLowerCase (shortcut s) = k) (rev snippets)) \<and>
   distinct (shortcutList (updateSnippets snippets st)) \<and>
   set (shortcutList (updateSnippets snippets st)) =
     (\<lambda>s. toLowerCase (shortcut s)) ` set snippets - {''__proto__''} \<and>
   sorted_wrt (\<lambda>a b. length b \<le> length a) (shortcutList (updateSnippets snippets st)) \<and>
   updateSnippets snippets (st\<lparr>snippetMap := m, shortcutList := l\<rparr>) = updateSnippets snippets st \<and>
   (updateSnippets snippets st)\<lparr>snippetMap := snippetMap st, shortcutList := shortcutList st\<rparr> = st \<and>
   buffer (updateSnippets snippets st) = buffer st \<and>
   expanding (updateSnippets snippets st) = expanding st \<and>
   (active st \<longrightarrow>
      startKeyListener h snippets st =
        updateSnippets snippets (if popSoundPath st = None then generatePopSound h st else st) \<and>
      snippetMap (startKeyListener h snippets st) = snippetMap (updateSnippets snippets st) \<and>
      shortcutList (startKeyListener h snippets st) = shortcutList (updateSnippets snippets st) \<and>
      buffer (startKeyListener h snippets st) = buffer st \<and>
      expanding (startKeyListener h snippets st) = expanding st)"
proof -
  have sm: "snippetMap (updateSnippets snippets st) = buildSnippetMap snippets"
    and sl: "shortcutList (updateSnippets snippets st) =
               sortLongestFirst (Object_keys (buildSnippetMap snippets))"
    by (simp_all add: updateSnippets_def Let_def)
  have 1: "map_of (snippetMap (updateSnippets snippets st)) k =
     (if k = ''__proto__'' then None
      else find (\<lambda>s. toLowerCase (shortcut s) = k) (rev snippets))"
    unfolding sm by (rule map_of_buildSnippetMap_last)
  have 2: "distinct (shortcutList (updateSnippets snippets st))"
    unfolding sl sortLongestFirst_def
    using distinct_Object_keys [OF distinct_buildSnippetMap] by simp
  have 3: "set (shortcutList (updateSnippets snippets st)) =
     (\<lambda>s. toLowerCase (shortcut s)) ` set snippets - {''__proto__''}"
    unfolding sl by (simp add: sortLongestFirst_def set_Object_keys keys_buildSnippetMap)
  have 4: "sorted_wrt (\<lambda>a b. length b \<le> length a) (shortcutList (updateSnippets snippets st))"
    unfolding sl by (rule sorted_sortLongestFirst)
  have 5: "updateSnippets snippets (st\<lparr>snippetMap := m, shortcutList := l\<rparr>) =
      updateSnippets snippets st"
    "(updateSnippets snippets st)\<lparr>snippetMap := snippetMap st, shortcutList := shortcutList st\<rparr> = st"
    "buffer (updateSnippets snippets st) = buffer st"
    "expanding (updateSnippets snippets st) = expanding st"
    by (simp_all add: updateSnippets_def Let_def)
  have 6: "startKeyListener h snippets st =
        updateSnippets snippets (if popSoundPath st = None then generatePopSound h st else st)"
    "snippetMap (startKeyListener h snippets st) = snippetMap (updateSnippets snippets st)"
    "shortcutList (startKeyListener h snippets st) = shortcutList (updateSnippets snippets st)"
    "buffer (startKeyListener h snippets st) = buffer st"
    "expanding (startKeyListener h snippets st) = expanding st"
    if "active st"
    using that
    by (simp_all add: startKeyListener_def updateSnippets_def generatePopSound_def Let_def)
  show ?thesis using 1 2 3 4 5 6 by blast
qed

text \<open>
  The listener started with \<^verbatim>\<open>dev1\<close>, the letters d and e typed, and a second start with
  \<^verbatim>\<open>Dev1\<close>, \<^verbatim>\<open>dev12\<close> and a second \<^verbatim>\<open>dev1\<close>: the longer key comes first, the later
  snippet wins, and the buffer is kept.
\<close>

theorem updateSnippets_frame_witness:
  "active ((startKeyListener mac [dev1] initial)\<lparr>buffer := ''de''\<rparr>) \<and>
   shortcutList (startKeyListener mac
       [snip 1 ''Dev1'' ''one'', snip 2 ''dev12'' ''twelve'', snip 3 ''dev1'' ''uno'']
       ((startKeyListener mac [dev1] initial)\<lparr>buffer := ''de''\<rparr>)) = [''dev12'', ''dev1''] \<and>
   map_of (snippetMap (startKeyListener mac
       [snip 1 ''Dev1'' ''one'', snip 2 ''dev12'' ''twelve'', snip 3 ''dev1'' ''uno'']
       ((startKeyListener mac [dev1] initial)\<lparr>buffer := ''de''\<rparr>))) ''dev1'' =
     Some (snip 3 ''dev1'' ''uno'') \<and>
   buffer (startKeyListener mac
       [snip 1 ''Dev1'' ''one'', snip 2 ''dev12'' ''twelve'', snip 3 ''dev1'' ''uno'']
       ((startKeyListener mac [dev1] initial)\<lparr>buffer := ''de''\<rparr>)) = ''de'' \<and>
   \<not> expanding (startKeyListener mac
       [snip 1 ''Dev1'' ''one'', snip 2 ''dev12'' ''twelve'', snip 3 ''dev1'' ''uno'']
       ((startKeyListener mac [dev1] initial)\<lparr>buffer := ''de''\<rparr>))"
proof -
  let ?st = "(startKeyListener mac [dev1] initial)\<lparr>buffer := ''de''\<rparr>"
  let ?sn = "[snip 1 ''Dev1'' ''one'', snip 2 ''dev12'' ''twelve'', snip 3 ''dev1'' ''uno'']"
  have h: "active ?st" "buffer ?st = ''de''" "\<not> expanding ?st"
    by (simp_all add: startKeyListener_def generatePopSound_def mac_def initial_def Let_def)
  have lc: "toLowerCase ''Dev1'' = ''dev1''" "toLowerCase ''dev12'' = ''dev12''"
    "toLowerCase ''dev1'' = ''dev1''"
    by code_simp+
  have l: "shortcutList (updateSnippets ?sn ?st) = [''dev12'', ''dev1'']"
    by (simp add: updateSnippets_def buildSnippetMap_def setProperty_def Object_keys_def
        isArrayIndex_def isDigit_def sortLongestFirst_def lc snip_def Let_def)
  have m: "(if ''dev1'' = ''__proto__'' then None
      else find (\<lambda>s. toLowerCase (shortcut s) = ''dev1'') (rev ?sn)) = Some (snip 3 ''dev1'' ''uno'')"
    by (simp add: lc snip_def)
  from updateSnippets_frame [of ?sn ?st "''dev1''" "[]" "[]" mac] h(1)
  have a: "map_of (snippetMap (updateSnippets ?sn ?st)) ''dev1'' =
       (if ''dev1'' = ''__proto__'' then None
        else find (\<lambda>s. toLowerCase (shortcut s) = ''dev1'') (rev ?sn))"
    and b: "snippetMap (startKeyListener mac ?sn ?st) = snippetMap (updateSnippets ?sn ?st)"
    and c: "shortcutList (startKeyListener mac ?sn ?st) = shortcutList (updateSnippets ?sn ?st)"
    and d: "buffer (startKeyListener mac ?sn ?st) = buffer ?st"
    and e: "expanding (startKeyListener mac ?sn ?st) = expanding ?st"
    by blast+
  show ?thesis using h l m a b c d e by simp
qed

text \<open>
  A first start in which the write of the sound file fails leaves an active listener with
  no sound file; the next start writes the file, so its result is not the result of
  \<^verbatim>\<open>updateSnippets\<close>.
\<close>

theorem start_while_active_writes_sound:
  "active (startKeyListener (mac\<lparr>writeFileThrows := True\<rparr>) [] initial) \<and>
   startKeyListener mac [] (startKeyListener (mac\<lparr>writeFileThrows := True\<rparr>) [] initial) \<noteq>
     updateSnippets [] (startKeyListener (mac\<lparr>writeFileThrows := True\<rparr>) [] initial) \<and>
   popSoundPath (updateSnippets [] (startKeyListener (mac\<lparr>writeFileThrows := True\<rparr>) [] initial)) =
     None \<and>
   popSoundPath (startKeyListener mac []
     (startKeyListener (mac\<lparr>writeFileThrows := True\<rparr>) [] initial)) =
     Some ''/tmp/snapcut-pop.wav''"
proof -
  let ?st = "startKeyListener (mac\<lparr>writeFileThrows := True\<rparr>) [] initial"
  have a: "active ?st" "popSoundPath ?st = None"
    by (simp_all add: startKeyListener_def generatePopSound_def mac_def initial_def Let_def)
  have u: "popSoundPath (updateSnippets [] ?st) = None"
    using a(2) by (simp add: updateSnippets_def Let_def)
  have s: "popSoundPath (startKeyListener mac [] ?st) = Some ''/tmp/snapcut-pop.wav''"
    by (simp add: startKeyListener_def generatePopSound_def updateSnippets_def mac_def
        initial_def Let_def)
  have "startKeyListener mac [] ?st \<noteq> updateSnippets [] ?st"
    using u s by (metis option.distinct(1))
  then show ?thesis using a(1) u s by simp
qed

end
